theory Spec2Isabelle
  imports Complex_Main
begin

section \<open>Data model (types.ts)\<close>

text \<open>
  Binary payloads are byte lists. JavaScript numbers that hold epoch milliseconds or
  counters are integers; an optional field \<open>f?: T\<close> is a \<open>T option\<close>.
  Record fields keep the names of the interfaces; a field whose name clashes with another
  interface's field or with a HOL constant carries the interface name as a prefix.
\<close>

type_synonym blob = "nat list"

record chat =
  chat_id :: string
  title :: string
  pinned :: bool
  orderIndex :: int
  chat_createdAt :: int
  updatedAt :: int

datatype role = User | Model

record token_usage =
  tok_prompt :: int
  tok_output :: int
  tok_thoughts :: "int option"
  tok_total :: int

record msg_meta =
  model :: string
  modelVersion :: "string option"
  duration :: string
  tokens :: "token_usage option"
  costUsd :: "real option"
  finishReason :: "string option"
  safetyBlocked :: "bool option"

record message =
  msg_id :: string
  chatId :: string
  role :: role
  msg_text :: string
  imageIds :: "string list option"
  timestamp :: int
  thoughts :: "string option"
  meta :: "msg_meta option"
  msg_error :: "bool option"

record image_blob =
  img_id :: string
  blob :: blob
  thumbnail :: "blob option"
  mimeType :: string
  createdAt :: int
  isGalleryVisible :: bool
  galleryTimestamp :: "int option"

datatype prompt_type = Recent | Saved

record prompt =
  prompt_id :: "nat option"
  prompt_text :: string
  ptype :: prompt_type
  prompt_timestamp :: int

record confirmations =
  deleteProject :: bool
  deleteMessage :: bool
  deleteImage :: bool
  regenerate :: bool
  fork :: bool
  import_confirm :: bool
  factoryReset :: bool

record app_config =
  apiKey :: string
  themeAccent :: string
  safetyThreshold :: string
  detailedVerbosity :: bool
  searchGrounding :: bool
  lightMode :: bool
  confirmations :: confirmations

section \<open>The store (db.ts)\<close>

text \<open>
  The four Dexie tables. A table is the list of its rows; the primary key of a row is its
  id field, and the store keeps primary keys unique (\<open>wf_store\<close>). \<open>promptKeyGen\<close> is
  the key generator of the auto-incremented \<open>++id\<close> of the prompts table.
\<close>

record store =
  chats :: "chat list"
  messages :: "message list"
  images :: "image_blob list"
  prompts :: "prompt list"
  promptKeyGen :: nat

definition empty_store :: store where
  "empty_store = \<lparr>chats = [], messages = [], images = [], prompts = [], promptKeyGen = 1\<rparr>"

definition wf_store :: "store \<Rightarrow> bool" where
  "wf_store s \<longleftrightarrow>
     distinct (map chat_id (chats s)) \<and> distinct (map msg_id (messages s)) \<and>
     distinct (map img_id (images s))"

datatype error = ConstraintError | InvalidBackup | StoreFailure | DecodeError

subsection \<open>Table primitives\<close>

definition images_get :: "string \<Rightarrow> image_blob list \<Rightarrow> image_blob option" where
  "images_get k tbl = find (\<lambda>r. img_id r = k) tbl"

definition images_bulkGet :: "string list \<Rightarrow> image_blob list \<Rightarrow> image_blob option list" where
  "images_bulkGet ks tbl = map (\<lambda>k. images_get k tbl) ks"

definition images_bulkDelete :: "string list \<Rightarrow> image_blob list \<Rightarrow> image_blob list" where
  "images_bulkDelete ks tbl = filter (\<lambda>r. img_id r \<notin> set ks) tbl"

definition images_updateRow ::
  "string \<Rightarrow> (image_blob \<Rightarrow> image_blob) \<Rightarrow> image_blob list \<Rightarrow> image_blob list" where
  "images_updateRow k f tbl = map (\<lambda>r. if img_id r = k then f r else r) tbl"

definition images_add :: "image_blob \<Rightarrow> image_blob list \<Rightarrow> error + image_blob list" where
  "images_add r tbl =
     (if img_id r \<in> set (map img_id tbl) then Inl ConstraintError else Inr (tbl @ [r]))"

definition images_bulkAdd :: "image_blob list \<Rightarrow> image_blob list \<Rightarrow> error + image_blob list" where
  "images_bulkAdd rs tbl =
     (if distinct (map img_id rs) \<and> list_all (\<lambda>r. img_id r \<notin> set (map img_id tbl)) rs
      then Inr (tbl @ rs) else Inl ConstraintError)"

definition messages_get :: "string \<Rightarrow> message list \<Rightarrow> message option" where
  "messages_get k tbl = find (\<lambda>m. msg_id m = k) tbl"

definition messages_bulkGet :: "string list \<Rightarrow> message list \<Rightarrow> message option list" where
  "messages_bulkGet ks tbl = map (\<lambda>k. messages_get k tbl) ks"

definition messages_bulkDelete :: "string list \<Rightarrow> message list \<Rightarrow> message list" where
  "messages_bulkDelete ks tbl = filter (\<lambda>m. msg_id m \<notin> set ks) tbl"

definition messages_updateRow ::
  "string \<Rightarrow> (message \<Rightarrow> message) \<Rightarrow> message list \<Rightarrow> message list" where
  "messages_updateRow k f tbl = map (\<lambda>m. if msg_id m = k then f m else m) tbl"

definition messages_add :: "message \<Rightarrow> message list \<Rightarrow> error + message list" where
  "messages_add m tbl =
     (if msg_id m \<in> set (map msg_id tbl) then Inl ConstraintError else Inr (tbl @ [m]))"

definition messages_bulkAdd :: "message list \<Rightarrow> message list \<Rightarrow> error + message list" where
  "messages_bulkAdd ms tbl =
     (if distinct (map msg_id ms) \<and> list_all (\<lambda>m. msg_id m \<notin> set (map msg_id tbl)) ms
      then Inr (tbl @ ms) else Inl ConstraintError)"

definition chats_add :: "chat \<Rightarrow> chat list \<Rightarrow> error + chat list" where
  "chats_add c tbl =
     (if chat_id c \<in> set (map chat_id tbl) then Inl ConstraintError else Inr (tbl @ [c]))"

definition chats_bulkAdd :: "chat list \<Rightarrow> chat list \<Rightarrow> error + chat list" where
  "chats_bulkAdd cs tbl =
     (if distinct (map chat_id cs) \<and> list_all (\<lambda>c. chat_id c \<notin> set (map chat_id tbl)) cs
      then Inr (tbl @ cs) else Inl ConstraintError)"

definition chats_delete :: "string \<Rightarrow> chat list \<Rightarrow> chat list" where
  "chats_delete k tbl = filter (\<lambda>c. chat_id c \<noteq> k) tbl"

text \<open>
  The entries of the multi-valued index \<open>*imageIds\<close> of a message: the elements of the
  field, none when the field is absent.
\<close>

definition msg_imageIds :: "message \<Rightarrow> string list" where
  "msg_imageIds m = (case imageIds m of None \<Rightarrow> [] | Some xs \<Rightarrow> xs)"

text \<open>A JavaScript \<open>Set\<close> filled by \<open>add\<close> and read back with \<open>Array.from\<close>.\<close>

definition set_add :: "'a list \<Rightarrow> 'a \<Rightarrow> 'a list" where
  "set_add acc x = (if x \<in> set acc then acc else acc @ [x])"

definition array_from_set :: "'a list \<Rightarrow> 'a list" where
  "array_from_set xs = foldl set_add [] xs"

section \<open>Image lifecycle (services/cleanupService.ts)\<close>

definition isImageReferenced :: "message list \<Rightarrow> string \<Rightarrow> bool" where
  "isImageReferenced msgs imageId =
     (let count = length (filter (\<lambda>m. imageId \<in> set (msg_imageIds m)) msgs) in count > 0)"

definition deleteImagesIfOrphaned :: "string list \<Rightarrow> store \<Rightarrow> store" where
  "deleteImagesIfOrphaned ids s =
     (if length ids = 0 then s
      else
        let imgs = filter (\<lambda>img. img_id img \<in> set ids) (images s);
            candidates = map img_id (filter (\<lambda>img. \<not> isGalleryVisible img) imgs)
        in if length candidates = 0 then s
           else
             let toDelete = filter (\<lambda>i. \<not> isImageReferenced (messages s) i) candidates
             in if length toDelete > 0
                then s\<lparr>images := images_bulkDelete toDelete (images s)\<rparr>
                else s)"

text \<open>
  The loop of \<open>forceDeleteImages\<close> over the messages found through the index: each is
  rewritten by primary key from the row that was read before the loop. (The multi-valued
  index can return a message once per matching id; the second update of a message writes
  the same \<open>newIds\<close> again, so the list of messages is taken without repetitions.)
\<close>

fun forceDeleteImages_loop :: "string list \<Rightarrow> message list \<Rightarrow> message list \<Rightarrow> message list" where
  "forceDeleteImages_loop ids [] tbl = tbl"
| "forceDeleteImages_loop ids (m # ms) tbl =
     (case imageIds m of
        None \<Rightarrow> forceDeleteImages_loop ids ms tbl
      | Some xs \<Rightarrow>
          let newIds = filter (\<lambda>i. i \<notin> set ids) xs
          in if length newIds \<noteq> length xs
             then forceDeleteImages_loop ids ms
                    (messages_updateRow (msg_id m) (\<lambda>r. r\<lparr>imageIds := Some newIds\<rparr>) tbl)
             else forceDeleteImages_loop ids ms tbl)"

definition forceDeleteImages :: "string list \<Rightarrow> store \<Rightarrow> store" where
  "forceDeleteImages ids s =
     (if length ids = 0 then s
      else
        let imgs' = images_bulkDelete ids (images s);
            msgs = filter (\<lambda>m. list_ex (\<lambda>i. i \<in> set (msg_imageIds m)) ids) (messages s)
        in s\<lparr>images := imgs', messages := forceDeleteImages_loop ids msgs (messages s)\<rparr>)"

definition deleteMessagesWithCleanup :: "string list \<Rightarrow> store \<Rightarrow> store" where
  "deleteMessagesWithCleanup messageIds s =
     (if length messageIds = 0 then s
      else
        let msgs = filter (\<lambda>m. msg_id m \<in> set messageIds) (messages s);
            candidateImageIds = array_from_set (concat (map msg_imageIds msgs));
            s1 = s\<lparr>messages := messages_bulkDelete messageIds (messages s)\<rparr>
        in if length candidateImageIds > 0
           then deleteImagesIfOrphaned candidateImageIds s1
           else s1)"

definition deleteChatWithCleanup :: "string \<Rightarrow> store \<Rightarrow> store" where
  "deleteChatWithCleanup cid s =
     (let msgs = filter (\<lambda>m. chatId m = cid) (messages s);
          messageIds = map msg_id msgs;
          candidateImageIds = array_from_set (concat (map msg_imageIds msgs));
          s1 = s\<lparr>messages := messages_bulkDelete messageIds (messages s)\<rparr>;
          s2 = s1\<lparr>chats := chats_delete cid (chats s1)\<rparr>
      in if length candidateImageIds > 0
         then deleteImagesIfOrphaned candidateImageIds s2
         else s2)"

text \<open>
  \<open>cleanupOrphanedImages\<close> is the one operation with a \<open>try/catch\<close> around its
  transaction. Every store request of the transaction is a numbered step, and a fault
  schedule says which steps throw: step 0 is \<open>db.images.toArray()\<close>, steps
  \<open>1 .. n\<close> are the \<open>isImageReferenced\<close> lookups of the \<open>n\<close> candidates, step
  \<open>n + 1\<close> is the \<open>bulkDelete\<close>. A throw aborts the transaction, so the store is the one
  the transaction started from.
\<close>

type_synonym faults = "nat \<Rightarrow> bool"

fun cleanup_loop ::
  "faults \<Rightarrow> nat \<Rightarrow> message list \<Rightarrow> string list \<Rightarrow> string list \<Rightarrow> error + string list" where
  "cleanup_loop flt k msgs [] toDelete = Inr toDelete"
| "cleanup_loop flt k msgs (i # candidates) toDelete =
     (if flt k then Inl StoreFailure
      else if \<not> isImageReferenced msgs i
           then cleanup_loop flt (Suc k) msgs candidates (toDelete @ [i])
           else cleanup_loop flt (Suc k) msgs candidates toDelete)"

definition cleanupOrphanedImages_txn :: "faults \<Rightarrow> store \<Rightarrow> error + store \<times> nat" where
  "cleanupOrphanedImages_txn flt s =
     (if flt 0 then Inl StoreFailure
      else
        let allImages = images s;
            candidates = map img_id (filter (\<lambda>img. \<not> isGalleryVisible img) allImages)
        in if length candidates = 0 then Inr (s, 0)
           else
             case cleanup_loop flt 1 (messages s) candidates [] of
               Inl e \<Rightarrow> Inl e
             | Inr toDelete \<Rightarrow>
                 if length toDelete > 0
                 then if flt (Suc (length candidates)) then Inl StoreFailure
                      else Inr (s\<lparr>images := images_bulkDelete toDelete (images s)\<rparr>,
                                length toDelete)
                 else Inr (s, length toDelete))"

definition cleanupOrphanedImages :: "faults \<Rightarrow> store \<Rightarrow> store \<times> nat" where
  "cleanupOrphanedImages flt s =
     (case cleanupOrphanedImages_txn flt s of
        Inr r \<Rightarrow> r
      | Inl e \<Rightarrow> (s, 0))"

definition no_faults :: faults where
  "no_faults = (\<lambda>k. False)"

section \<open>Gallery (App.tsx, the lightbox and the gallery view)\<close>

datatype outcome = Done | GalleryFull

definition bookmark :: "int \<Rightarrow> image_blob \<Rightarrow> image_blob" where
  "bookmark t r = r\<lparr>isGalleryVisible := True, galleryTimestamp := Some t\<rparr>"

definition unbookmark :: "image_blob \<Rightarrow> image_blob" where
  "unbookmark r = r\<lparr>isGalleryVisible := False, galleryTimestamp := None\<rparr>"

text \<open>\<open>db.images.filter(i => i.isGalleryVisible).count()\<close>, the count of the capacity check.\<close>

definition galleryCountVisible :: "image_blob list \<Rightarrow> nat" where
  "galleryCountVisible tbl = length (filter isGalleryVisible tbl)"

text \<open>\<open>db.images.where('galleryTimestamp').above(0).count()\<close>, the count over the sparse index.\<close>

definition galleryCountIndex :: "image_blob list \<Rightarrow> nat" where
  "galleryCountIndex tbl =
     length (filter (\<lambda>r. case galleryTimestamp r of None \<Rightarrow> False | Some t \<Rightarrow> t > 0) tbl)"

definition handleBulkUnbookmark :: "string list \<Rightarrow> store \<Rightarrow> store" where
  "handleBulkUnbookmark ids s =
     s\<lparr>images := fold (\<lambda>k tbl. images_updateRow k unbookmark tbl) ids (images s)\<rparr>"

definition handleToggleGallery :: "string list \<Rightarrow> store \<Rightarrow> outcome \<times> store" where
  "handleToggleGallery ids s =
     (let currentCount = int (galleryCountVisible (images s));
          imgs = images_bulkGet ids (images s);
          validImages = concat (map (\<lambda>i. case i of None \<Rightarrow> [] | Some r \<Rightarrow> [r]) imgs);
          anyUnsaved = list_ex (\<lambda>i. \<not> isGalleryVisible i) validImages
      in if anyUnsaved
         then
           let availableSlots = 50 - currentCount;
               toSave = filter (\<lambda>i. \<not> isGalleryVisible i) validImages
           in if int (length toSave) > availableSlots then (GalleryFull, s)
              else (Done, s\<lparr>images :=
                      fold (\<lambda>img tbl. images_updateRow (img_id img) (bookmark (createdAt img)) tbl)
                        toSave (images s)\<rparr>)
         else (Done, s\<lparr>images :=
                 fold (\<lambda>img tbl. images_updateRow (img_id img) unbookmark tbl)
                   validImages (images s)\<rparr>))"

text \<open>
  The lightbox handler. \<open>imageId\<close> is the optional property of the component and
  \<open>imageData\<close> the row the live query \<open>db.images.get(imageId)\<close> holds for it.
\<close>

definition handleToggleBookmark :: "string option \<Rightarrow> store \<Rightarrow> outcome \<times> store" where
  "handleToggleBookmark imageId s =
     (case imageId of
        None \<Rightarrow> (Done, s)
      | Some k \<Rightarrow>
          if k = [] then (Done, s)
          else
            case images_get k (images s) of
              None \<Rightarrow> (Done, s)
            | Some imageData \<Rightarrow>
                if isGalleryVisible imageData
                then (Done, s\<lparr>images := images_updateRow k unbookmark (images s)\<rparr>)
                else
                  let count = galleryCountIndex (images s)
                  in if count \<ge> 50 then (GalleryFull, s)
                     else (Done, s\<lparr>images :=
                             images_updateRow k (bookmark (createdAt imageData)) (images s)\<rparr>))"

text \<open>
  The sparse-index invariant in the form the gallery view relies on (``timestamps are
  positive integers''): a row carries a gallery timestamp, and a positive one, exactly
  when it is gallery-visible.
\<close>

definition sparse_index_pos :: "image_blob list \<Rightarrow> bool" where
  "sparse_index_pos tbl \<longleftrightarrow>
     list_all (\<lambda>r. isGalleryVisible r = (case galleryTimestamp r of None \<Rightarrow> False | Some t \<Rightarrow> t > 0)) tbl"

section \<open>Safe deletion (services/dataService.ts)\<close>

fun deleteMessagesSafe_loop ::
  "string list \<Rightarrow> message list \<Rightarrow> image_blob option list \<Rightarrow> string list \<Rightarrow> string list" where
  "deleteMessagesSafe_loop messageIds msgs [] imagesToDelete = imagesToDelete"
| "deleteMessagesSafe_loop messageIds msgs (None # rest) imagesToDelete =
     deleteMessagesSafe_loop messageIds msgs rest imagesToDelete"
| "deleteMessagesSafe_loop messageIds msgs (Some img # rest) imagesToDelete =
     (if isGalleryVisible img then deleteMessagesSafe_loop messageIds msgs rest imagesToDelete
      else
        let msgsUsingImage = map msg_id (filter (\<lambda>m. img_id img \<in> set (msg_imageIds m)) msgs);
            isReferencedElsewhere = list_ex (\<lambda>msgId. msgId \<notin> set messageIds) msgsUsingImage
        in if \<not> isReferencedElsewhere
           then deleteMessagesSafe_loop messageIds msgs rest (imagesToDelete @ [img_id img])
           else deleteMessagesSafe_loop messageIds msgs rest imagesToDelete)"

definition deleteMessagesSafe :: "string list \<Rightarrow> store \<Rightarrow> store" where
  "deleteMessagesSafe messageIds s =
     (let msgs = messages_bulkGet messageIds (messages s);
          validMessages = concat (map (\<lambda>m. case m of None \<Rightarrow> [] | Some x \<Rightarrow> [x]) msgs);
          allImageIds = array_from_set (concat (map msg_imageIds validMessages));
          s1 = (if length allImageIds > 0
                then
                  let imgs = images_bulkGet allImageIds (images s);
                      imagesToDelete = deleteMessagesSafe_loop messageIds (messages s) imgs []
                  in if length imagesToDelete > 0
                     then s\<lparr>images := images_bulkDelete imagesToDelete (images s)\<rparr>
                     else s
                else s)
      in s1\<lparr>messages := messages_bulkDelete messageIds (messages s1)\<rparr>)"

section \<open>Export (services/dataService.ts)\<close>

record image_meta =
  meta_id :: string
  meta_mimeType :: string
  meta_createdAt :: int
  meta_isGalleryVisible :: bool
  meta_galleryTimestamp :: "int option"

record backup_data =
  version :: nat
  exportedAt :: int
  config :: "app_config option"
  bd_chats :: "chat list"
  bd_messages :: "message list"
  bd_prompts :: "prompt list"
  bd_images :: "image_meta list"

fun split_on :: "char \<Rightarrow> string \<Rightarrow> string list" where
  "split_on c [] = [[]]"
| "split_on c (x # xs) =
     (if x = c then [] # split_on c xs
      else (case split_on c xs of [] \<Rightarrow> [[x]] | y # ys \<Rightarrow> (x # y) # ys))"

text \<open>\<open>mimeType.split('/')[1] || 'bin'\<close>\<close>

definition mime_ext :: "string \<Rightarrow> string" where
  "mime_ext m = (case split_on CHR ''/'' m of
                   _ # e # _ \<Rightarrow> if e = [] then ''bin'' else e
                 | _ \<Rightarrow> ''bin'')"

definition image_filename :: "string \<Rightarrow> string \<Rightarrow> string" where
  "image_filename k m = k @ ''.'' @ mime_ext m"

record zip_archive =
  dataFile :: "backup_data option"
  imageFiles :: "string \<Rightarrow> blob option"

text \<open>
  \<open>exportData\<close>: \<open>now\<close> is the value of \<open>Date.now()\<close>. The archive holds the manifest
  and one file per image in the folder \<open>images/\<close>.
\<close>

definition exportData :: "app_config \<Rightarrow> int \<Rightarrow> store \<Rightarrow> zip_archive" where
  "exportData cfg now s =
     (let exportConfig = cfg\<lparr>apiKey := ''''\<rparr>;
          metadata = \<lparr>version = 4, exportedAt = now, config = Some exportConfig,
                      bd_chats = chats s, bd_messages = messages s, bd_prompts = prompts s,
                      bd_images = map (\<lambda>img. \<lparr>meta_id = img_id img, meta_mimeType = mimeType img,
                                               meta_createdAt = createdAt img,
                                               meta_isGalleryVisible = isGalleryVisible img,
                                               meta_galleryTimestamp = galleryTimestamp img\<rparr>)
                                      (images s)\<rparr>
      in \<lparr>dataFile = Some metadata,
          imageFiles = map_of (map (\<lambda>img. (image_filename (img_id img) (mimeType img), blob img))
                                 (rev (images s)))\<rparr>)"

section \<open>Message handlers (App.tsx)\<close>

text \<open>
  The handlers of \<open>App.tsx\<close>, restricted to their requests on the chats, messages and
  images tables (the prompt-history block of \<open>handleSendMessage\<close> and the title update of
  \<open>processGeneration\<close> write other columns only). Values that the handler draws from the
  platform (\<open>uuidv4()\<close>, \<open>Date.now()\<close>, the optimised blob and its thumbnail, the outcome
  of the generation request) are parameters. The handlers are taken from the point where
  the user has passed the confirmation dialogs and \<open>handleCheckConflict\<close>. None of these
  handlers opens a transaction: a request that throws leaves the requests made before it
  in the store.
\<close>

record new_file =
  nf_imgId :: string
  nf_effectiveType :: string
  nf_blob :: blob
  nf_thumb :: blob
  nf_mime :: string
  nf_now :: int

definition new_image :: "string \<Rightarrow> blob \<Rightarrow> blob \<Rightarrow> string \<Rightarrow> int \<Rightarrow> image_blob" where
  "new_image k b th mt now =
     \<lparr>img_id = k, blob = b, thumbnail = Some th, mimeType = mt, createdAt = now,
      isGalleryVisible = False, galleryTimestamp = None\<rparr>"

text \<open>
  The loop over the attached files, shared by \<open>handleSendMessage\<close> and
  \<open>handleEditMessage\<close>: a file without a usable type ends the handler, as does a failing
  \<open>db.images.add\<close>. The flag tells whether the loop ran to its end.
\<close>

fun store_files ::
  "new_file list \<Rightarrow> image_blob list \<Rightarrow> string list \<Rightarrow> bool \<times> image_blob list \<times> string list" where
  "store_files [] tbl ids = (True, tbl, ids)"
| "store_files (f # fs) tbl ids =
     (if nf_effectiveType f = [] \<or> nf_effectiveType f = ''application/octet-stream''
      then (False, tbl, ids)
      else
        (case images_add (new_image (nf_imgId f) (nf_blob f) (nf_thumb f) (nf_mime f) (nf_now f)) tbl of
           Inl e \<Rightarrow> (False, tbl, ids)
         | Inr tbl' \<Rightarrow> store_files fs tbl' (ids @ [nf_imgId f])))"

text \<open>\<open>text.trim()\<close> is the empty string (ASCII white space).\<close>

definition is_blank :: "string \<Rightarrow> bool" where
  "is_blank t = list_all (\<lambda>c. c \<in> set [CHR '' '', CHR 0x09, CHR 0x0A, CHR 0x0B, CHR 0x0C, CHR 0x0D]) t"

text \<open>The flag of the result tells whether the user message was stored.\<close>

definition handleSendMessage ::
  "string option \<Rightarrow> string \<Rightarrow> string \<Rightarrow> string \<Rightarrow> new_file list \<Rightarrow> int \<Rightarrow> store \<Rightarrow> bool \<times> store" where
  "handleSendMessage activeChatId key userMsgId txt files now s =
     (case activeChatId of
        None \<Rightarrow> (False, s)
      | Some cid \<Rightarrow>
          if (is_blank txt \<and> length files = 0) \<or> cid = [] then (False, s)
          else if key = [] then (False, s)
          else
            (case store_files files (images s) [] of
               (False, tbl, ids) \<Rightarrow> (False, s\<lparr>images := tbl\<rparr>)
             | (True, tbl, ids) \<Rightarrow>
                 (case messages_add
                         \<lparr>msg_id = userMsgId, chatId = cid, role = User, msg_text = txt,
                          imageIds = Some ids, timestamp = now, thoughts = None, meta = None,
                          msg_error = None\<rparr> (messages s) of
                    Inl e \<Rightarrow> (False, s\<lparr>images := tbl\<rparr>)
                  | Inr ms \<Rightarrow> (True, s\<lparr>images := tbl, messages := ms\<rparr>))))"

record generated =
  gen_imgId :: string
  gen_blob :: blob
  gen_thumb :: blob
  gen_type :: string
  gen_now :: int

text \<open>
  The outcome of the generation request: completed with images and the fields of the
  model message, aborted, or failed. \<open>errorMsg\<close> below is the text that the \<open>catch\<close>
  block derives from the error.
\<close>

datatype api_result = ApiCompleted "generated list" message | ApiAborted | ApiFailed

fun save_generated ::
  "generated list \<Rightarrow> image_blob list \<Rightarrow> string list \<Rightarrow> (error + string list) \<times> image_blob list" where
  "save_generated [] tbl genImageIds = (Inr genImageIds, tbl)"
| "save_generated (g # gs) tbl genImageIds =
     (case images_add (new_image (gen_imgId g) (gen_blob g) (gen_thumb g) (gen_type g) (gen_now g)) tbl of
        Inl e \<Rightarrow> (Inl e, tbl)
      | Inr tbl' \<Rightarrow> save_generated gs tbl' (genImageIds @ [gen_imgId g]))"

definition chats_updateRow :: "string \<Rightarrow> (chat \<Rightarrow> chat) \<Rightarrow> chat list \<Rightarrow> chat list" where
  "chats_updateRow k f tbl = map (\<lambda>c. if chat_id c = k then f c else c) tbl"

text \<open>The \<open>catch\<close> block of \<open>processGeneration\<close>: an error-flagged model message.\<close>

definition record_error :: "string \<Rightarrow> string \<Rightarrow> string \<Rightarrow> int \<Rightarrow> store \<Rightarrow> store" where
  "record_error cid errId errorMsg errNow s =
     (case messages_add
             \<lparr>msg_id = errId, chatId = cid, role = Model, msg_text = errorMsg, imageIds = None,
              timestamp = errNow, thoughts = None, meta = None, msg_error = Some True\<rparr>
             (messages s) of
        Inl e \<Rightarrow> s
      | Inr ms \<Rightarrow> s\<lparr>messages := ms\<rparr>)"

text \<open>The flag of the result tells whether the model message with its images was stored.\<close>

definition processGeneration ::
  "string \<Rightarrow> api_result \<Rightarrow> string \<Rightarrow> string \<Rightarrow> int \<Rightarrow> int \<Rightarrow> store \<Rightarrow> bool \<times> store" where
  "processGeneration cid res errId errorMsg errNow now s =
     (case res of
        ApiAborted \<Rightarrow> (False, s)
      | ApiFailed \<Rightarrow> (False, record_error cid errId errorMsg errNow s)
      | ApiCompleted gens m \<Rightarrow>
          (case save_generated gens (images s) [] of
             (Inl e, tbl) \<Rightarrow> (False, record_error cid errId errorMsg errNow (s\<lparr>images := tbl\<rparr>))
           | (Inr genImageIds, tbl) \<Rightarrow>
               (case messages_add (m\<lparr>chatId := cid, role := Model, imageIds := Some genImageIds\<rparr>)
                       (messages s) of
                  Inl e \<Rightarrow> (False, record_error cid errId errorMsg errNow (s\<lparr>images := tbl\<rparr>))
                | Inr ms \<Rightarrow>
                    (True, s\<lparr>images := tbl, messages := ms,
                             chats := chats_updateRow cid (\<lambda>c. c\<lparr>updatedAt := now\<rparr>) (chats s)\<rparr>))))"

text \<open>
  \<open>performRegenerate\<close> of \<open>handleEditMessage\<close>: the later messages of the chat are deleted
  with cleanup, the new files are stored, the removed attachments are passed to
  \<open>deleteImagesIfOrphaned\<close>, and only then is the message rewritten.
\<close>

definition handleEditMessage ::
  "string option \<Rightarrow> string \<Rightarrow> string \<Rightarrow> string list \<Rightarrow> new_file list \<Rightarrow> store \<Rightarrow> store" where
  "handleEditMessage activeChatId msgId newText keptImageIds newFiles s =
     (case (messages_get msgId (messages s), activeChatId) of
        (Some targetMsg, Some cid) \<Rightarrow>
          if cid = [] then s
          else
            let laterMessages = filter (\<lambda>m. chatId m = cid \<and> timestamp m > timestamp targetMsg)
                                  (messages s);
                s1 = deleteMessagesWithCleanup (map msg_id laterMessages) s
            in (case store_files newFiles (images s1) keptImageIds of
                  (False, tbl, ids) \<Rightarrow> s1\<lparr>images := tbl\<rparr>
                | (True, tbl, finalImageIds) \<Rightarrow>
                    let s2 = s1\<lparr>images := tbl\<rparr>;
                        s3 = (case imageIds targetMsg of
                                None \<Rightarrow> s2
                              | Some old \<Rightarrow>
                                  let removedIds = filter (\<lambda>i. i \<notin> set keptImageIds) old
                                  in if length removedIds > 0
                                     then deleteImagesIfOrphaned removedIds s2
                                     else s2)
                    in s3\<lparr>messages :=
                           messages_updateRow msgId
                             (\<lambda>m. m\<lparr>msg_text := newText, imageIds := Some finalImageIds\<rparr>)
                             (messages s3)\<rparr>)
      | _ \<Rightarrow> s)"

text \<open>
  \<open>performFork\<close>: the messages of the chat up to the target are copied, in timestamp
  order, under fresh ids (\<open>uuid i\<close> for the \<open>i\<close>-th copy) into a new chat.
\<close>

definition handleFork ::
  "string option \<Rightarrow> string \<Rightarrow> string \<Rightarrow> (nat \<Rightarrow> string) \<Rightarrow> string \<Rightarrow> int \<Rightarrow> store \<Rightarrow> store" where
  "handleFork activeChatId msgId newChatId uuid newTitle now s =
     (case (messages_get msgId (messages s), activeChatId) of
        (Some targetMsg, Some cid) \<Rightarrow>
          if cid = [] then s
          else
            let msgsToCopy = sort_key timestamp
                               (filter (\<lambda>m. chatId m = cid \<and> timestamp m \<le> timestamp targetMsg)
                                  (messages s))
            in (case chats_add \<lparr>chat_id = newChatId, title = newTitle, pinned = False,
                                 orderIndex = 0, chat_createdAt = now, updatedAt = now\<rparr>
                        (chats s) of
                  Inl e \<Rightarrow> s
                | Inr cs \<Rightarrow>
                    let newMessages = map (\<lambda>(i, m). m\<lparr>msg_id := uuid i, chatId := newChatId\<rparr>)
                                        (enumerate 0 msgsToCopy)
                    in (case messages_bulkAdd newMessages (messages s) of
                          Inl e \<Rightarrow> s\<lparr>chats := cs\<rparr>
                        | Inr ms \<Rightarrow> s\<lparr>chats := cs, messages := ms\<rparr>))
      | _ \<Rightarrow> s)"

section \<open>Import (services/dataService.ts)\<close>

text \<open>
  \<open>createThumbnail\<close> (services/geminiService.ts) returns the blob itself unless the type
  is an image type; the canvas resampling is the parameter \<open>resize\<close>. It never rejects.
\<close>

definition createThumbnail :: "(blob \<Rightarrow> blob) \<Rightarrow> string \<Rightarrow> blob \<Rightarrow> blob" where
  "createThumbnail resize ty b = (if take 6 ty = ''image/'' then resize b else b)"

text \<open>\<open>a || b\<close> on an optional number: \<open>undefined\<close> and \<open>0\<close> are falsy.\<close>

definition num_or :: "int option \<Rightarrow> int \<Rightarrow> int" where
  "num_or a b = (case a of None \<Rightarrow> b | Some t \<Rightarrow> if t = 0 then b else t)"

text \<open>
  \<open>db.prompts.bulkAdd\<close> of rows whose id was stripped: every row takes the next key of
  the key generator.
\<close>

fun prompts_bulkAdd :: "prompt list \<Rightarrow> prompt list \<Rightarrow> nat \<Rightarrow> prompt list \<times> nat" where
  "prompts_bulkAdd [] tbl g = (tbl, g)"
| "prompts_bulkAdd (p # ps) tbl g = prompts_bulkAdd ps (tbl @ [p\<lparr>prompt_id := Some g\<rparr>]) (Suc g)"

text \<open>Transaction 1 of \<open>importData\<close>: chats, messages and prompts of the manifest.\<close>

definition merge_metadata :: "backup_data \<Rightarrow> store \<Rightarrow> error + store" where
  "merge_metadata d s =
     (case (if length (bd_chats d) > 0
            then
              let existingIds = set (map chat_id (chats s));
                  newChats = filter (\<lambda>c. chat_id c \<notin> existingIds) (bd_chats d)
              in if length newChats > 0 then chats_bulkAdd newChats (chats s) else Inr (chats s)
            else Inr (chats s)) of
        Inl e \<Rightarrow> Inl e
      | Inr cs \<Rightarrow>
          (case (if length (bd_messages d) > 0
                 then
                   let existingIds = set (map msg_id (messages s));
                       newMessages = filter (\<lambda>m. msg_id m \<notin> existingIds) (bd_messages d)
                   in if length newMessages > 0 then messages_bulkAdd newMessages (messages s)
                      else Inr (messages s)
                 else Inr (messages s)) of
             Inl e \<Rightarrow> Inl e
           | Inr ms \<Rightarrow>
               let (ps, g) = (if length (bd_prompts d) > 0
                              then
                                let promptsToAdd = map (\<lambda>p. p\<lparr>prompt_id := None\<rparr>) (bd_prompts d)
                                in prompts_bulkAdd promptsToAdd (prompts s) (promptKeyGen s)
                              else (prompts s, promptKeyGen s))
               in Inr (s\<lparr>chats := cs, messages := ms, prompts := ps, promptKeyGen := g\<rparr>)))"

text \<open>
  The preparation of one candidate of a batch: the file of the image is looked up under
  \<open>id.ext\<close>, then under \<open>id\<close>; a candidate without a file adds nothing.
\<close>

definition import_item :: "(blob \<Rightarrow> blob) \<Rightarrow> (string \<Rightarrow> blob option) \<Rightarrow> image_meta \<Rightarrow> image_blob list" where
  "import_item resize files imgMeta =
     (let filename = image_filename (meta_id imgMeta) (meta_mimeType imgMeta);
          imgFile = (case files filename of None \<Rightarrow> files (meta_id imgMeta) | Some f \<Rightarrow> Some f)
      in case imgFile of
           None \<Rightarrow> []
         | Some arrayBuffer \<Rightarrow>
             [\<lparr>img_id = meta_id imgMeta, blob = arrayBuffer,
               thumbnail = Some (createThumbnail resize (meta_mimeType imgMeta) arrayBuffer),
               mimeType = meta_mimeType imgMeta, createdAt = meta_createdAt imgMeta,
               isGalleryVisible = meta_isGalleryVisible imgMeta,
               galleryTimestamp =
                 (if meta_isGalleryVisible imgMeta
                  then Some (num_or (meta_galleryTimestamp imgMeta) (meta_createdAt imgMeta))
                  else None)\<rparr>])"

text \<open>
  The batch loop (\<open>BATCH_SIZE = 5\<close>). Every \<open>bulkAdd\<close> is a transaction of its own, so a
  failing batch leaves the earlier batches in the table; the result carries the error, if
  any, next to the table. The candidates of a batch are prepared concurrently
  (\<open>Promise.all\<close>); the rows are taken in the order of the batch, the table being keyed by
  id.
\<close>

function import_image_batches ::
  "(blob \<Rightarrow> blob) \<Rightarrow> (string \<Rightarrow> blob option) \<Rightarrow> image_meta list \<Rightarrow> image_blob list
     \<Rightarrow> error option \<times> image_blob list" where
  "import_image_batches resize files metas tbl =
     (if metas = [] then (None, tbl)
      else
        let batch = take 5 metas;
            batchIds = map meta_id batch;
            existingIds = set (map img_id (filter (\<lambda>r. img_id r \<in> set batchIds) tbl));
            candidates = filter (\<lambda>img. meta_id img \<notin> existingIds) batch;
            itemsToAdd = concat (map (import_item resize files) candidates)
        in if length itemsToAdd > 0
           then (case images_bulkAdd itemsToAdd tbl of
                   Inl e \<Rightarrow> (Some e, tbl)
                 | Inr tbl' \<Rightarrow> import_image_batches resize files (drop 5 metas) tbl')
           else import_image_batches resize files (drop 5 metas) tbl)"
  by pat_completeness auto
termination
  by (relation "measure (\<lambda>(resize, files, metas, tbl). length metas)") auto

declare import_image_batches.simps [simp del]

text \<open>The legacy single-document format: images carry their payload as a base64 string.\<close>

record legacy_image =
  li_id :: string
  li_blob :: string
  li_mimeType :: string
  li_createdAt :: int
  li_isGalleryVisible :: bool

record legacy_data =
  ld_config :: "app_config option"
  ld_chats :: "chat list"
  ld_messages :: "message list"
  ld_prompts :: "prompt list"
  ld_images :: "legacy_image list"

text \<open>
  \<open>importLegacyJson\<close> is one transaction: a failure of any step leaves the store as it
  was. \<open>atob\<close> is the base64 decoder of the platform, which throws on malformed input.
\<close>

fun hydrate :: "(string \<Rightarrow> blob option) \<Rightarrow> legacy_image list \<Rightarrow> error + image_blob list" where
  "hydrate atob [] = Inr []"
| "hydrate atob (img # rest) =
     (case atob (li_blob img) of
        None \<Rightarrow> Inl DecodeError
      | Some byteArray \<Rightarrow>
          (case hydrate atob rest of
             Inl e \<Rightarrow> Inl e
           | Inr hs \<Rightarrow>
               Inr (\<lparr>img_id = li_id img, blob = byteArray, thumbnail = None,
                     mimeType = li_mimeType img, createdAt = li_createdAt img,
                     isGalleryVisible = li_isGalleryVisible img,
                     galleryTimestamp =
                       (if li_isGalleryVisible img then Some (li_createdAt img) else None)\<rparr> # hs)))"

definition importLegacyJson ::
  "(string \<Rightarrow> blob option) \<Rightarrow> legacy_data \<Rightarrow> store \<Rightarrow> (error + app_config option) \<times> store" where
  "importLegacyJson atob d s =
     (case (let existing = set (map chat_id (chats s));
                toAdd = filter (\<lambda>x. chat_id x \<notin> existing) (ld_chats d)
            in if length toAdd > 0 then chats_bulkAdd toAdd (chats s) else Inr (chats s)) of
        Inl e \<Rightarrow> (Inl e, s)
      | Inr cs \<Rightarrow>
          (case (let existing = set (map msg_id (messages s));
                     toAdd = filter (\<lambda>x. msg_id x \<notin> existing) (ld_messages d)
                 in if length toAdd > 0 then messages_bulkAdd toAdd (messages s)
                    else Inr (messages s)) of
             Inl e \<Rightarrow> (Inl e, s)
           | Inr ms \<Rightarrow>
               let (ps, g) = prompts_bulkAdd (map (\<lambda>p. p\<lparr>prompt_id := None\<rparr>) (ld_prompts d))
                               (prompts s) (promptKeyGen s);
                   existing = set (map img_id (images s));
                   candidates = filter (\<lambda>x. li_id x \<notin> existing) (ld_images d)
               in case (if length candidates > 0
                        then (case hydrate atob candidates of
                                Inl e \<Rightarrow> Inl e
                              | Inr hydratedImages \<Rightarrow> images_bulkAdd hydratedImages (images s))
                        else Inr (images s)) of
                    Inl e \<Rightarrow> (Inl e, s)
                  | Inr is \<Rightarrow>
                      (Inr (ld_config d),
                       s\<lparr>chats := cs, messages := ms, images := is, prompts := ps,
                         promptKeyGen := g\<rparr>)))"

datatype backup_file = JsonFile legacy_data | ZipFile zip_archive

definition importData ::
  "(blob \<Rightarrow> blob) \<Rightarrow> (string \<Rightarrow> blob option) \<Rightarrow> backup_file \<Rightarrow> store
     \<Rightarrow> (error + app_config option) \<times> store" where
  "importData resize atob file s =
     (case file of
        JsonFile d \<Rightarrow> importLegacyJson atob d s
      | ZipFile z \<Rightarrow>
          (case dataFile z of
             None \<Rightarrow> (Inl InvalidBackup, s)
           | Some dat \<Rightarrow>
               (case merge_metadata dat s of
                  Inl e \<Rightarrow> (Inl e, s)
                | Inr s1 \<Rightarrow>
                    (case import_image_batches resize (imageFiles z) (bd_images dat) (images s1) of
                       (Some e, tbl) \<Rightarrow> (Inl e, s1\<lparr>images := tbl\<rparr>)
                     | (None, tbl) \<Rightarrow> (Inr (config dat), s1\<lparr>images := tbl\<rparr>)))))"

section \<open>Schema upgrade to version 3 (db.ts)\<close>

text \<open>\<open>!img.galleryTimestamp\<close> holds for an absent timestamp and for \<open>0\<close>.\<close>

definition upgrade_v3 :: "store \<Rightarrow> store" where
  "upgrade_v3 s =
     s\<lparr>images :=
         map (\<lambda>img. if isGalleryVisible img
                        \<and> (case galleryTimestamp img of None \<Rightarrow> True | Some t \<Rightarrow> t = 0)
                     then img\<lparr>galleryTimestamp := Some (createdAt img)\<rparr>
                     else img)
           (images s)\<rparr>"

section \<open>Invariants and reachable stores\<close>

text \<open>
  The image-existence invariant: every row of the images table is gallery-visible or is
  listed by a message of the messages table.
\<close>

definition image_invariant :: "store \<Rightarrow> bool" where
  "image_invariant s \<longleftrightarrow>
     list_all (\<lambda>img. isGalleryVisible img \<or> isImageReferenced (messages s) (img_id img)) (images s)"

text \<open>The sparse-index invariant: a row is gallery-visible exactly when it has a gallery timestamp.\<close>

definition sparse_row_ok :: "image_blob \<Rightarrow> bool" where
  "sparse_row_ok r \<longleftrightarrow> (isGalleryVisible r \<longleftrightarrow> galleryTimestamp r \<noteq> None)"

definition sparse_index_ok :: "image_blob list \<Rightarrow> bool" where
  "sparse_index_ok tbl \<longleftrightarrow> list_all sparse_row_ok tbl"

text \<open>
  The stores the application can be in. A database starts empty, or is a database of
  schema version 1 or 2 (whose image rows have no \<open>galleryTimestamp\<close>) after the upgrade
  to version 3; every handler and every exported service function, with any arguments,
  leads from a reachable store to a reachable store. The rule \<open>other_tables\<close> stands for
  the handlers that write the chats and prompts tables only; the store keeps the primary
  keys of what they write unique.
\<close>

inductive reachable :: "store \<Rightarrow> bool" where
  fresh: "reachable empty_store"
| upgraded:
    "wf_store s0 \<Longrightarrow> list_all (\<lambda>r. galleryTimestamp r = None) (images s0) \<Longrightarrow>
     reachable (upgrade_v3 s0)"
| other_tables:
    "reachable s \<Longrightarrow> distinct (map chat_id cs) \<Longrightarrow>
     reachable (s\<lparr>chats := cs, prompts := ps, promptKeyGen := g\<rparr>)"
| send: "reachable s \<Longrightarrow> reachable (snd (handleSendMessage a key k txt files now s))"
| generation: "reachable s \<Longrightarrow> reachable (snd (processGeneration cid res errId errorMsg errNow now s))"
| edit: "reachable s \<Longrightarrow> reachable (handleEditMessage a k txt kept files s)"
| fork: "reachable s \<Longrightarrow> reachable (handleFork a k newChatId uuid newTitle now s)"
| delete_messages: "reachable s \<Longrightarrow> reachable (deleteMessagesWithCleanup ids s)"
| delete_messages_safe: "reachable s \<Longrightarrow> reachable (deleteMessagesSafe ids s)"
| delete_chat: "reachable s \<Longrightarrow> reachable (deleteChatWithCleanup cid s)"
| delete_orphaned: "reachable s \<Longrightarrow> reachable (deleteImagesIfOrphaned ids s)"
| force_delete: "reachable s \<Longrightarrow> reachable (forceDeleteImages ids s)"
| sweep: "reachable s \<Longrightarrow> reachable (fst (cleanupOrphanedImages flt s))"
| bulk_unbookmark: "reachable s \<Longrightarrow> reachable (handleBulkUnbookmark ids s)"
| toggle_gallery: "reachable s \<Longrightarrow> reachable (snd (handleToggleGallery ids s))"
| toggle_bookmark: "reachable s \<Longrightarrow> reachable (snd (handleToggleBookmark imageId s))"
| import_backup: "reachable s \<Longrightarrow> reachable (snd (importData resize atob file s))"

text \<open>
  The operations that keep the image-existence invariant: a send or a generation that
  stored its message, the deletions, a bookmark, a fork, and the maintenance sweep.
\<close>

inductive lifecycle_op :: "store \<Rightarrow> store \<Rightarrow> bool" where
  sent: "handleSendMessage a key k txt files now s = (True, s') \<Longrightarrow> lifecycle_op s s'"
| generated: "processGeneration cid res errId errorMsg errNow now s = (True, s') \<Longrightarrow> lifecycle_op s s'"
| forked: "lifecycle_op s (handleFork a k newChatId uuid newTitle now s)"
| messages_deleted: "lifecycle_op s (deleteMessagesWithCleanup ids s)"
| messages_deleted_safe: "lifecycle_op s (deleteMessagesSafe ids s)"
| chat_deleted: "lifecycle_op s (deleteChatWithCleanup cid s)"
| orphans_deleted: "lifecycle_op s (deleteImagesIfOrphaned ids s)"
| force_deleted: "lifecycle_op s (forceDeleteImages ids s)"
| swept: "lifecycle_op s (fst (cleanupOrphanedImages flt s))"
| bookmarked_bulk:
    "list_ex (\<lambda>r. img_id r \<in> set ids \<and> \<not> isGalleryVisible r) (images s) \<Longrightarrow>
     lifecycle_op s (snd (handleToggleGallery ids s))"
| bookmarked:
    "images_get k (images s) = Some r \<Longrightarrow> \<not> isGalleryVisible r \<Longrightarrow>
     lifecycle_op s (snd (handleToggleBookmark (Some k) s))"

section \<open>Specification-side definitions and example rows\<close>

text \<open>
  What the specification asks of \<open>forceDelete\<close> for one message: the listed ids are
  removed from \<open>imageIds\<close> and the remaining ids keep their order.
\<close>

definition removeImageRefs :: "string list \<Rightarrow> message \<Rightarrow> message" where
  "removeImageRefs ids m =
     (case imageIds m of
        None \<Rightarrow> m
      | Some xs \<Rightarrow> m\<lparr>imageIds := Some (filter (\<lambda>i. i \<notin> set ids) xs)\<rparr>)"

text \<open>The rows that a \<open>bulkGet\<close> found: \<open>images.filter(i => !!i)\<close>.\<close>

definition validRows :: "image_blob option list \<Rightarrow> image_blob list" where
  "validRows imgs = concat (map (\<lambda>i. case i of None \<Rightarrow> [] | Some r \<Rightarrow> [r]) imgs)"

text \<open>
  Auxiliary notions for the import: the rows one batch adds, an archive entry that a
  table already covers (its id is present, or the archive has no file for it), and the
  prompt entries of a backup file.
\<close>

definition batch_items :: "(blob \<Rightarrow> blob) \<Rightarrow> (string \<Rightarrow> blob option) \<Rightarrow> image_meta list \<Rightarrow> image_blob list \<Rightarrow> image_blob list" where
  "batch_items resize files batch tbl =
     concat (map (import_item resize files)
       (filter (\<lambda>img. meta_id img \<notin> set (map img_id tbl)) batch))"

definition covered :: "(blob \<Rightarrow> blob) \<Rightarrow> (string \<Rightarrow> blob option) \<Rightarrow> image_blob list \<Rightarrow> image_meta \<Rightarrow> bool" where
  "covered resize files tbl m \<longleftrightarrow> meta_id m \<in> set (map img_id tbl) \<or> import_item resize files m = []"

definition file_prompts :: "backup_file \<Rightarrow> prompt list" where
  "file_prompts file =
     (case file of
        JsonFile d \<Rightarrow> ld_prompts d
      | ZipFile z \<Rightarrow> (case dataFile z of None \<Rightarrow> [] | Some dat \<Rightarrow> bd_prompts dat))"

text \<open>Rows for the concrete instances below.\<close>

definition mk_image :: "string \<Rightarrow> int \<Rightarrow> bool \<Rightarrow> image_blob" where
  "mk_image k t vis =
     \<lparr>img_id = k, blob = [], thumbnail = None, mimeType = ''image/png'', createdAt = t,
      isGalleryVisible = vis, galleryTimestamp = (if vis then Some t else None)\<rparr>"

definition mk_message :: "string \<Rightarrow> string \<Rightarrow> string list \<Rightarrow> message" where
  "mk_message k c ids =
     \<lparr>msg_id = k, chatId = c, role = User, msg_text = [], imageIds = Some ids, timestamp = 0,
      thoughts = None, meta = None, msg_error = None\<rparr>"

definition mk_store :: "message list \<Rightarrow> image_blob list \<Rightarrow> store" where
  "mk_store ms is = \<lparr>chats = [], messages = ms, images = is, prompts = [], promptKeyGen = 1\<rparr>"

text \<open>A small archive and the store that its import into the empty store yields.\<close>

definition example_manifest :: backup_data where
  "example_manifest =
     \<lparr>version = 4, exportedAt = 0, config = None,
      bd_chats = [\<lparr>chat_id = ''c1'', title = ''t'', pinned = False, orderIndex = 0,
                   chat_createdAt = 1, updatedAt = 1\<rparr>],
      bd_messages = [mk_message ''m1'' ''c1'' [''x'']],
      bd_prompts = [\<lparr>prompt_id = Some 7, prompt_text = ''p'', ptype = Recent, prompt_timestamp = 3\<rparr>],
      bd_images = [\<lparr>meta_id = ''x'', meta_mimeType = ''image/png'', meta_createdAt = 5,
                    meta_isGalleryVisible = True, meta_galleryTimestamp = None\<rparr>]\<rparr>"

definition example_archive :: zip_archive where
  "example_archive = \<lparr>dataFile = Some example_manifest, imageFiles = [''x.png'' \<mapsto> [1, 2, 3]]\<rparr>"

definition example_imported :: store where
  "example_imported =
     \<lparr>chats = [\<lparr>chat_id = ''c1'', title = ''t'', pinned = False, orderIndex = 0,
                 chat_createdAt = 1, updatedAt = 1\<rparr>],
      messages = [mk_message ''m1'' ''c1'' [''x'']],
      images = [\<lparr>img_id = ''x'', blob = [1, 2, 3], thumbnail = Some [1, 2, 3],
                  mimeType = ''image/png'', createdAt = 5, isGalleryVisible = True,
                  galleryTimestamp = Some 5\<rparr>],
      prompts = [\<lparr>prompt_id = Some 1, prompt_text = ''p'', ptype = Recent, prompt_timestamp = 3\<rparr>],
      promptKeyGen = 2\<rparr>"

text \<open>
  A short history: a message with one attachment is sent, the attachment is bookmarked,
  the message is deleted, and the attachment is unbookmarked. The second archive holds one
  image that is neither bookmarked nor listed by a message.
\<close>

definition example_file :: new_file where
  "example_file =
     \<lparr>nf_imgId = ''x'', nf_effectiveType = ''image/png'', nf_blob = [1], nf_thumb = [1],
      nf_mime = ''image/png'', nf_now = 5\<rparr>"

definition example_sent :: store where
  "example_sent = snd (handleSendMessage (Some ''c1'') ''key'' ''m1'' ''hi'' [example_file] 6 empty_store)"

definition example_bookmarked :: store where
  "example_bookmarked = snd (handleToggleGallery [''x''] example_sent)"

definition example_deleted :: store where
  "example_deleted = deleteMessagesWithCleanup [''m1''] example_bookmarked"

definition example_unbookmarked :: store where
  "example_unbookmarked = handleBulkUnbookmark [''x''] example_deleted"

definition example_orphan_archive :: zip_archive where
  "example_orphan_archive =
     \<lparr>dataFile = Some (example_manifest
         \<lparr>bd_messages := [],
          bd_images := [\<lparr>meta_id = ''x'', meta_mimeType = ''image/png'', meta_createdAt = 5,
                         meta_isGalleryVisible = False, meta_galleryTimestamp = None\<rparr>]\<rparr>),
      imageFiles = [''x.png'' \<mapsto> [1, 2, 3]]\<rparr>"






section \<open>Properties\<close>

subsection \<open>Auxiliary facts about the table primitives and the lifecycle operations\<close>

lemma set_foldl_set_add: "set (foldl set_add acc xs) = set acc \<union> set xs"
  by (induction xs arbitrary: acc) (auto simp: set_add_def)

lemma set_array_from_set [simp]: "set (array_from_set xs) = set xs"
  by (simp add: array_from_set_def set_foldl_set_add)

lemma isImageReferenced_iff:
  "isImageReferenced msgs i \<longleftrightarrow> (\<exists>m\<in>set msgs. i \<in> set (msg_imageIds m))"
  by (auto simp: isImageReferenced_def Let_def filter_empty_conv)

lemma images_bulkDelete_Nil [simp]: "images_bulkDelete [] tbl = tbl"
  by (simp add: images_bulkDelete_def)

lemma deleteImagesIfOrphaned_images:
  "images (deleteImagesIfOrphaned ids s) =
     images_bulkDelete
       (filter (\<lambda>i. \<not> isImageReferenced (messages s) i)
          (map img_id (filter (\<lambda>img. \<not> isGalleryVisible img)
             (filter (\<lambda>img. img_id img \<in> set ids) (images s)))))
       (images s)"
  by (auto simp: deleteImagesIfOrphaned_def Let_def)

lemma deleteImagesIfOrphaned_others [simp]:
  "messages (deleteImagesIfOrphaned ids s) = messages s"
  "chats (deleteImagesIfOrphaned ids s) = chats s"
  "prompts (deleteImagesIfOrphaned ids s) = prompts s"
  by (auto simp: deleteImagesIfOrphaned_def Let_def)

lemma deleteImagesIfOrphaned_mem:
  "r \<in> set (images (deleteImagesIfOrphaned ids s)) \<longleftrightarrow>
     r \<in> set (images s) \<and>
     \<not> (\<exists>c\<in>set (images s). img_id c = img_id r \<and> img_id c \<in> set ids \<and>
           \<not> isGalleryVisible c \<and> \<not> isImageReferenced (messages s) (img_id c))"
  unfolding deleteImagesIfOrphaned_images images_bulkDelete_def by (auto simp: image_iff)

lemma deleteMessagesWithCleanup_mem:
  assumes "img \<in> set (images s)" "\<not> isGalleryVisible img"
    "m \<in> set (messages s)" "msg_id m \<in> set S" "img_id img \<in> set (msg_imageIds m)"
  shows "img \<in> set (images (deleteMessagesWithCleanup S s)) \<longleftrightarrow>
         (\<exists>m'\<in>set (messages s). msg_id m' \<notin> set S \<and> img_id img \<in> set (msg_imageIds m'))"
proof -
  let ?msgs = "filter (\<lambda>m. msg_id m \<in> set S) (messages s)"
  let ?cands = "array_from_set (concat (map msg_imageIds ?msgs))"
  let ?s1 = "s\<lparr>messages := messages_bulkDelete S (messages s)\<rparr>"
  have S: "S \<noteq> []" using assms(4) by auto
  have c: "img_id img \<in> set ?cands" using assms(3,4,5) by auto
  then have ne: "length ?cands > 0" by (cases ?cands) auto
  have eq: "deleteMessagesWithCleanup S s = deleteImagesIfOrphaned ?cands ?s1"
    using S ne by (simp add: deleteMessagesWithCleanup_def Let_def)
  show ?thesis
    unfolding eq deleteImagesIfOrphaned_mem
    using assms(1,2) c
    by (auto simp: isImageReferenced_iff messages_bulkDelete_def)
qed

lemma find_distinct_img:
  "distinct (map img_id tbl) \<Longrightarrow> images_get k tbl = Some r \<longleftrightarrow> r \<in> set tbl \<and> img_id r = k"
  unfolding images_get_def
  by (induction tbl) (auto simp: image_iff)

lemma find_distinct_msg:
  "distinct (map msg_id tbl) \<Longrightarrow> messages_get k tbl = Some r \<longleftrightarrow> r \<in> set tbl \<and> msg_id r = k"
  unfolding messages_get_def
  by (induction tbl) (auto simp: image_iff)

lemma deleteMessagesSafe_loop_Some:
  "deleteMessagesSafe_loop S msgs (Some img # rest) acc =
     (if isGalleryVisible img then deleteMessagesSafe_loop S msgs rest acc
      else if (\<exists>m\<in>set msgs. img_id img \<in> set (msg_imageIds m) \<and> msg_id m \<notin> set S)
           then deleteMessagesSafe_loop S msgs rest acc
           else deleteMessagesSafe_loop S msgs rest (acc @ [img_id img]))"
  by (auto simp: Let_def list_ex_iff)

lemma set_deleteMessagesSafe_loop:
  "set (deleteMessagesSafe_loop S msgs imgs acc) =
     set acc \<union> {img_id i | i. Some i \<in> set imgs \<and> \<not> isGalleryVisible i \<and>
                   \<not> (\<exists>m\<in>set msgs. img_id i \<in> set (msg_imageIds m) \<and> msg_id m \<notin> set S)}"
proof (induction imgs arbitrary: acc)
  case Nil
  then show ?case by simp
next
  case (Cons x imgs)
  show ?case
  proof (cases x)
    case None
    then show ?thesis using Cons.IH [of acc] by simp
  next
    case (Some img)
    show ?thesis
      unfolding Some deleteMessagesSafe_loop_Some
      using Cons.IH [of acc] Cons.IH [of "acc @ [img_id img]"] by auto
  qed
qed

lemma deleteMessagesSafe_images:
  "images (deleteMessagesSafe S s) =
     images_bulkDelete
       (deleteMessagesSafe_loop S (messages s)
          (images_bulkGet (array_from_set (concat (map msg_imageIds
             (concat (map (\<lambda>m. case m of None \<Rightarrow> [] | Some x \<Rightarrow> [x]) (messages_bulkGet S (messages s)))))))
             (images s)) [])
       (images s)"
  by (auto simp: deleteMessagesSafe_def Let_def images_bulkGet_def)

lemma deleteMessagesSafe_mem:
  assumes "distinct (map msg_id (messages s))" "distinct (map img_id (images s))"
    "img \<in> set (images s)" "\<not> isGalleryVisible img"
    "m \<in> set (messages s)" "msg_id m \<in> set S" "img_id img \<in> set (msg_imageIds m)"
  shows "img \<in> set (images (deleteMessagesSafe S s)) \<longleftrightarrow>
         (\<exists>m'\<in>set (messages s). msg_id m' \<notin> set S \<and> img_id img \<in> set (msg_imageIds m'))"
proof -
  let ?valid = "concat (map (\<lambda>m. case m of None \<Rightarrow> [] | Some x \<Rightarrow> [x]) (messages_bulkGet S (messages s)))"
  let ?all = "array_from_set (concat (map msg_imageIds ?valid))"
  have "messages_get (msg_id m) (messages s) = Some m"
    using assms(1,5) by (simp add: find_distinct_msg)
  then have "m \<in> set ?valid" using assms(6) by (force simp: messages_bulkGet_def)
  then have inall: "img_id img \<in> set ?all" using assms(7) by auto
  have found: "Some img \<in> set (images_bulkGet ?all (images s))"
    using inall assms(2,3) find_distinct_img [OF assms(2), of "img_id img" img]
    by (force simp: images_bulkGet_def)
  have only: "\<And>i. Some i \<in> set (images_bulkGet ?all (images s)) \<Longrightarrow> i \<in> set (images s)"
    by (auto simp: images_bulkGet_def) (metis find_distinct_img [OF assms(2)])
  have same: "\<And>i. i \<in> set (images s) \<Longrightarrow> img_id i = img_id img \<Longrightarrow> i = img"
    using assms(2,3) by (auto simp: distinct_map inj_on_def)
  show ?thesis
    unfolding deleteMessagesSafe_images images_bulkDelete_def set_filter set_deleteMessagesSafe_loop
    using assms(3,4) found only same by auto
qed

lemma cleanup_loop_Inr:
  "cleanup_loop flt k msgs cands acc = Inr td \<Longrightarrow>
   td = acc @ filter (\<lambda>i. \<not> isImageReferenced msgs i) cands"
proof (induction cands arbitrary: k acc)
  case Nil
  then show ?case by simp
next
  case (Cons a cands)
  show ?case
  proof (cases "isImageReferenced msgs a")
    case True
    with Cons.prems have "cleanup_loop flt (Suc k) msgs cands acc = Inr td"
      by (simp split: if_splits)
    from Cons.IH [OF this] True show ?thesis by simp
  next
    case False
    with Cons.prems have "cleanup_loop flt (Suc k) msgs cands (acc @ [a]) = Inr td"
      by (simp split: if_splits)
    from Cons.IH [OF this] False show ?thesis by simp
  qed
qed

lemma cleanup_loop_no_faults:
  "cleanup_loop no_faults k msgs cands acc = Inr (acc @ filter (\<lambda>i. \<not> isImageReferenced msgs i) cands)"
  by (induction cands arbitrary: k acc) (auto simp: no_faults_def)

lemma length_bulkDelete_orphans:
  assumes "distinct (map img_id tbl)"
  shows "length (images_bulkDelete (filter Q (map img_id (filter P tbl))) tbl)
         = length tbl - length (filter Q (map img_id (filter P tbl)))"
  using assms
proof -
  have eq: "images_bulkDelete (filter Q (map img_id (filter P tbl))) tbl
        = filter (\<lambda>r. \<not> (P r \<and> Q (img_id r))) tbl"
    unfolding images_bulkDelete_def
    by (rule filter_cong) (use assms in \<open>auto simp: distinct_map inj_on_def\<close>)
  have "length (filter Q (map img_id (filter P tbl))) = length (filter (\<lambda>r. P r \<and> Q (img_id r)) tbl)"
    by (induction tbl) auto
  moreover have "length tbl = length (filter (\<lambda>r. P r \<and> Q (img_id r)) tbl) + length (filter (\<lambda>r. \<not> (P r \<and> Q (img_id r))) tbl)"
    by (rule sum_length_filter_compl [symmetric])
  ultimately show ?thesis unfolding eq by simp
qed

lemma cleanupOrphanedImages_txn_Inr:
  assumes "cleanupOrphanedImages_txn flt s = Inr (s', n)"
  shows "s' = s\<lparr>images := images_bulkDelete
             (filter (\<lambda>i. \<not> isImageReferenced (messages s) i)
                (map img_id (filter (\<lambda>img. \<not> isGalleryVisible img) (images s)))) (images s)\<rparr>
       \<and> n = length (filter (\<lambda>i. \<not> isImageReferenced (messages s) i)
                (map img_id (filter (\<lambda>img. \<not> isGalleryVisible img) (images s))))"
proof -
  let ?cands = "map img_id (filter (\<lambda>img. \<not> isGalleryVisible img) (images s))"
  let ?td = "filter (\<lambda>i. \<not> isImageReferenced (messages s) i) ?cands"
  show ?thesis
  proof (cases "?cands = []")
    case True
    with assms show ?thesis
      by (simp add: cleanupOrphanedImages_txn_def split: if_splits)
  next
    case False
    show ?thesis
    proof (cases "cleanup_loop flt 1 (messages s) ?cands []")
      case (Inl e)
      with assms False show ?thesis
        by (simp add: cleanupOrphanedImages_txn_def Let_def split: if_splits)
    next
      case (Inr td)
      from cleanup_loop_Inr [OF Inr] have td: "td = ?td" by simp
      from assms False Inr have r: "(if length td > 0
                 then if flt (Suc (length ?cands)) then Inl StoreFailure
                      else Inr (s\<lparr>images := images_bulkDelete td (images s)\<rparr>, length td)
                 else Inr (s, length td)) = Inr (s', n)"
        by (simp add: cleanupOrphanedImages_txn_def Let_def split: if_splits)
      show ?thesis
      proof (cases "length td > 0")
        case True
        with r have "s' = s\<lparr>images := images_bulkDelete td (images s)\<rparr> \<and> n = length td"
          by (simp split: if_splits)
        then show ?thesis unfolding td .
      next
        case False
        with r have "s' = s \<and> n = 0 \<and> td = []" by simp
        then show ?thesis unfolding td by simp
      qed
    qed
  qed
qed

lemma msg_id_removeImageRefs [simp]: "msg_id (removeImageRefs ids m) = msg_id m"
  by (simp add: removeImageRefs_def split: option.splits)

lemma filter_same_length: "length (filter P xs) = length xs \<Longrightarrow> filter P xs = xs"
  by (metis filter_True length_filter_less less_irrefl_nat)

lemma updateRow_distinct:
  assumes "distinct (map msg_id tbl)" "m \<in> set tbl" "msg_id (f m) = msg_id m"
  shows "messages_updateRow (msg_id m) f tbl = map (\<lambda>r. if r = m then f m else r) tbl"
  using assms unfolding messages_updateRow_def
  by (auto simp: distinct_map inj_on_def)

lemma forceDeleteImages_loop_rewrite:
  "distinct (map msg_id tbl) \<Longrightarrow> distinct (map msg_id ms) \<Longrightarrow> set ms \<subseteq> set tbl \<Longrightarrow>
   forceDeleteImages_loop ids ms tbl = map (\<lambda>r. if r \<in> set ms then removeImageRefs ids r else r) tbl"
proof (induction ms arbitrary: tbl)
  case Nil
  then show ?case by simp
next
  case (Cons m ms)
  let ?R = "removeImageRefs ids"
  let ?tbl' = "map (\<lambda>r. if r = m then ?R m else r) tbl"
  have m_in: "m \<in> set tbl" using Cons.prems by simp
  have step: "forceDeleteImages_loop ids (m # ms) tbl = forceDeleteImages_loop ids ms ?tbl'"
  proof (cases "imageIds m")
    case None
    then have "?R m = m" by (simp add: removeImageRefs_def)
    then have "?tbl' = tbl" by (simp add: map_idI)
    with None show ?thesis by simp
  next
    case (Some xs)
    show ?thesis
    proof (cases "length (filter (\<lambda>i. i \<notin> set ids) xs) = length xs")
      case True
      then have "filter (\<lambda>i. i \<notin> set ids) xs = xs" by (rule filter_same_length)
      with Some have "?R m = m" by (simp add: removeImageRefs_def)
      then have "?tbl' = tbl" by (simp add: map_idI)
      with Some True show ?thesis by simp
    next
      case False
      have "messages_updateRow (msg_id m) (\<lambda>r. r\<lparr>imageIds := Some (filter (\<lambda>i. i \<notin> set ids) xs)\<rparr>) tbl
            = map (\<lambda>r. if r = m then m\<lparr>imageIds := Some (filter (\<lambda>i. i \<notin> set ids) xs)\<rparr> else r) tbl"
        using updateRow_distinct [OF Cons.prems(1) m_in, of "\<lambda>r. r\<lparr>imageIds := Some (filter (\<lambda>i. i \<notin> set ids) xs)\<rparr>"]
        by simp
      also have "\<dots> = ?tbl'" using Some by (simp add: removeImageRefs_def)
      finally show ?thesis using Some False by (simp add: Let_def)
    qed
  qed
  have ids': "map msg_id ?tbl' = map msg_id tbl" by auto
  have d': "distinct (map msg_id ?tbl')" using Cons.prems(1) by (simp only: ids')
  have dms: "distinct (map msg_id ms)" and m_notin: "msg_id m \<notin> msg_id ` set ms"
    using Cons.prems(2) by auto
  have sub': "set ms \<subseteq> set ?tbl'"
  proof
    fix x assume x: "x \<in> set ms"
    then have "x \<noteq> m" using m_notin by auto
    moreover have "x \<in> set tbl" using x Cons.prems(3) by auto
    ultimately show "x \<in> set ?tbl'" by force
  qed
  have Rm_notin: "?R m \<notin> set ms" using m_notin by (metis image_eqI msg_id_removeImageRefs)
  have "forceDeleteImages_loop ids ms ?tbl' = map (\<lambda>r. if r \<in> set ms then ?R r else r) ?tbl'"
    by (rule Cons.IH [OF d' dms sub'])
  also have "\<dots> = map (\<lambda>r. if r \<in> set (m # ms) then ?R r else r) tbl"
    using Rm_notin by (auto simp: comp_def)
  finally show ?case using step by simp
qed

lemma removeImageRefs_unreferenced:
  "\<not> list_ex (\<lambda>i. i \<in> set (msg_imageIds m)) ids \<Longrightarrow> removeImageRefs ids m = m"
proof -
  assume a: "\<not> list_ex (\<lambda>i. i \<in> set (msg_imageIds m)) ids"
  show ?thesis
  proof (cases "imageIds m")
    case None then show ?thesis by (simp add: removeImageRefs_def)
  next
    case (Some xs)
    then have "\<forall>x\<in>set xs. x \<notin> set ids" using a by (auto simp: list_ex_iff msg_imageIds_def)
    then have "filter (\<lambda>i. i \<notin> set ids) xs = xs" by (simp add: filter_id_conv)
    with Some show ?thesis by (simp add: removeImageRefs_def)
  qed
qed

lemma forceDeleteImages_messages_eq:
  assumes "distinct (map msg_id (messages s))"
  shows "messages (forceDeleteImages ids s) = map (removeImageRefs ids) (messages s)"
proof (cases "ids = []")
  case True
  have "removeImageRefs [] = (\<lambda>m. m)"
    by (rule ext) (simp add: removeImageRefs_def split: option.splits)
  with True show ?thesis by (simp add: forceDeleteImages_def)
next
  case False
  let ?msgs = "filter (\<lambda>m. list_ex (\<lambda>i. i \<in> set (msg_imageIds m)) ids) (messages s)"
  have "forceDeleteImages_loop ids ?msgs (messages s)
        = map (\<lambda>r. if r \<in> set ?msgs then removeImageRefs ids r else r) (messages s)"
    by (rule forceDeleteImages_loop_rewrite) (use assms in \<open>auto simp: distinct_map_filter\<close>)
  also have "\<dots> = map (removeImageRefs ids) (messages s)"
    by (rule map_cong) (auto simp: removeImageRefs_unreferenced)
  finally show ?thesis using False by (simp add: forceDeleteImages_def Let_def)
qed

lemma galleryCountIndex_eq_visible:
  "sparse_index_pos tbl \<Longrightarrow> galleryCountIndex tbl = galleryCountVisible tbl"
  unfolding sparse_index_pos_def galleryCountIndex_def galleryCountVisible_def
  by (induction tbl) auto

lemma set_validRows: "set (validRows imgs) = {r. Some r \<in> set imgs}"
  by (induction imgs) (auto simp: validRows_def split: option.splits)





lemma import_image_batches_Nil [simp]:
  "import_image_batches resize files [] tbl = (None, tbl)"
  by (simp add: import_image_batches.simps)

lemma existing_in_batch:
  "m \<in> set batch \<Longrightarrow>
   meta_id m \<notin> set (map img_id (filter (\<lambda>r. img_id r \<in> set (map meta_id batch)) tbl))
   \<longleftrightarrow> meta_id m \<notin> set (map img_id tbl)"
  by force

lemma import_image_batches_step:
  "metas \<noteq> [] \<Longrightarrow>
   import_image_batches resize files metas tbl =
     (if batch_items resize files (take 5 metas) tbl = []
      then import_image_batches resize files (drop 5 metas) tbl
      else (case images_bulkAdd (batch_items resize files (take 5 metas) tbl) tbl of
              Inl e \<Rightarrow> (Some e, tbl)
            | Inr tbl' \<Rightarrow> import_image_batches resize files (drop 5 metas) tbl'))"
proof -
  assume ne: "metas \<noteq> []"
  have eq: "filter (\<lambda>img. meta_id img \<notin> set (map img_id (filter (\<lambda>r. img_id r \<in> set (map meta_id (take 5 metas))) tbl))) (take 5 metas)
      = filter (\<lambda>img. meta_id img \<notin> set (map img_id tbl)) (take 5 metas)"
    by (rule filter_cong [OF refl]) (rule existing_in_batch)
  show ?thesis
    apply (subst import_image_batches.simps)
    apply (simp only: Let_def eq ne if_False)
    apply (simp only: batch_items_def [symmetric])
    apply (cases "batch_items resize files (take 5 metas) tbl")
     apply simp_all
    done
qed

lemma import_item_id: "r \<in> set (import_item resize files m) \<Longrightarrow> img_id r = meta_id m"
  by (auto simp: import_item_def Let_def split: option.splits)

lemma batch_items_covered:
  assumes "m \<in> set batch"
  shows "covered resize files (tbl @ batch_items resize files batch tbl) m"
proof (cases "meta_id m \<in> set (map img_id tbl) \<or> import_item resize files m = []")
  case True
  then show ?thesis by (auto simp: covered_def)
next
  case False
  then obtain r where r: "r \<in> set (import_item resize files m)" by (cases "import_item resize files m") auto
  with False assms have "r \<in> set (batch_items resize files batch tbl)"
    by (auto simp: batch_items_def)
  with import_item_id [OF r] show ?thesis by (force simp: covered_def)
qed

lemma covered_mono: "covered resize files tbl m \<Longrightarrow> set (map img_id tbl) \<subseteq> set (map img_id tbl') \<Longrightarrow> covered resize files tbl' m"
  by (auto simp: covered_def)

lemma import_image_batches_covers:
  "import_image_batches resize files metas tbl = (None, tbl') \<Longrightarrow>
   (\<forall>m\<in>set metas. covered resize files tbl' m) \<and> set (map img_id tbl) \<subseteq> set (map img_id tbl')"
proof (induction "length metas" arbitrary: metas tbl rule: less_induct)
  case less
  show ?case
  proof (cases "metas = []")
    case True
    with less.prems show ?thesis by simp
  next
    case False
    let ?items = "batch_items resize files (take 5 metas) tbl"
    have shorter: "length (drop 5 metas) < length metas" using False by (cases metas) auto
    have split: "set metas = set (take 5 metas) \<union> set (drop 5 metas)"
      by (metis append_take_drop_id set_append)
    show ?thesis
    proof (cases "?items = []")
      case True
      with less.prems False have rec: "import_image_batches resize files (drop 5 metas) tbl = (None, tbl')"
        by (simp add: import_image_batches_step)
      from less.hyps [OF shorter rec]
      have IH: "\<forall>m\<in>set (drop 5 metas). covered resize files tbl' m" and sub: "set (map img_id tbl) \<subseteq> set (map img_id tbl')"
        by auto
      have "\<forall>m\<in>set (take 5 metas). covered resize files tbl' m"
      proof
        fix m assume "m \<in> set (take 5 metas)"
        from batch_items_covered [OF this, of resize files tbl] True
        have "covered resize files tbl m" by simp
        then show "covered resize files tbl' m" using sub by (rule covered_mono)
      qed
      with IH sub split show ?thesis by auto
    next
      case nonempty: False
      with less.prems False obtain tbl1 where add: "images_bulkAdd ?items tbl = Inr tbl1"
        and rec: "import_image_batches resize files (drop 5 metas) tbl1 = (None, tbl')"
        by (auto simp: import_image_batches_step split: sum.splits)
      from add have tbl1: "tbl1 = tbl @ ?items" by (auto simp: images_bulkAdd_def split: if_splits)
      from less.hyps [OF shorter rec]
      have IH: "\<forall>m\<in>set (drop 5 metas). covered resize files tbl' m" and sub: "set (map img_id tbl1) \<subseteq> set (map img_id tbl')"
        by auto
      have "\<forall>m\<in>set (take 5 metas). covered resize files tbl' m"
      proof
        fix m assume "m \<in> set (take 5 metas)"
        from batch_items_covered [OF this, of resize files tbl]
        have "covered resize files tbl1 m" unfolding tbl1 .
        then show "covered resize files tbl' m" using sub by (rule covered_mono)
      qed
      moreover have "set (map img_id tbl) \<subseteq> set (map img_id tbl')" using sub tbl1 by auto
      ultimately show ?thesis using IH split by auto
    qed
  qed
qed

lemma import_image_batches_idle:
  "\<forall>m\<in>set metas. covered resize files tbl m \<Longrightarrow>
   import_image_batches resize files metas tbl = (None, tbl)"
proof (induction "length metas" arbitrary: metas rule: less_induct)
  case less
  show ?case
  proof (cases "metas = []")
    case True
    then show ?thesis by simp
  next
    case False
    have shorter: "length (drop 5 metas) < length metas" using False by (cases metas) auto
    have "batch_items resize files (take 5 metas) tbl = []"
      using less.prems by (auto simp: batch_items_def covered_def dest: in_set_takeD)
    moreover have "import_image_batches resize files (drop 5 metas) tbl = (None, tbl)"
      using less.prems by (intro less.hyps [OF shorter]) (auto dest: in_set_dropD)
    ultimately show ?thesis using False by (simp add: import_image_batches_step)
  qed
qed

lemma length_prompts_bulkAdd:
  "length (fst (prompts_bulkAdd ps tbl g)) = length tbl + length ps"
  by (induction ps arbitrary: tbl g) auto

lemma chats_bulkAdd_Inr: "chats_bulkAdd cs tbl = Inr tbl' \<Longrightarrow> tbl' = tbl @ cs"
  by (auto simp: chats_bulkAdd_def split: if_splits)

lemma messages_bulkAdd_Inr: "messages_bulkAdd ms tbl = Inr tbl' \<Longrightarrow> tbl' = tbl @ ms"
  by (auto simp: messages_bulkAdd_def split: if_splits)

lemma merge_chats_covers:
  assumes "(if length cs > 0
            then let existingIds = set (map chat_id tbl);
                     newChats = filter (\<lambda>c. chat_id c \<notin> existingIds) cs
                 in if length newChats > 0 then chats_bulkAdd newChats tbl else Inr tbl
            else Inr tbl) = Inr tbl'"
  shows "set (map chat_id cs) \<subseteq> set (map chat_id tbl')"
proof (cases "filter (\<lambda>c. chat_id c \<notin> set (map chat_id tbl)) cs = []")
  case True
  then have "\<forall>c\<in>set cs. chat_id c \<in> set (map chat_id tbl)" by (simp add: filter_empty_conv)
  moreover from assms True have "tbl' = tbl" by (simp add: Let_def split: if_splits)
  ultimately show ?thesis by auto
next
  case False
  with assms have "chats_bulkAdd (filter (\<lambda>c. chat_id c \<notin> set (map chat_id tbl)) cs) tbl = Inr tbl'"
    by (cases cs) (simp_all add: Let_def)
  from chats_bulkAdd_Inr [OF this] show ?thesis by auto
qed

lemma merge_messages_covers:
  assumes "(if length cs > 0
            then let existingIds = set (map msg_id tbl);
                     newMessages = filter (\<lambda>c. msg_id c \<notin> existingIds) cs
                 in if length newMessages > 0 then messages_bulkAdd newMessages tbl else Inr tbl
            else Inr tbl) = Inr tbl'"
  shows "set (map msg_id cs) \<subseteq> set (map msg_id tbl')"
proof (cases "filter (\<lambda>c. msg_id c \<notin> set (map msg_id tbl)) cs = []")
  case True
  then have "\<forall>c\<in>set cs. msg_id c \<in> set (map msg_id tbl)" by (simp add: filter_empty_conv)
  moreover from assms True have "tbl' = tbl" by (simp add: Let_def split: if_splits)
  ultimately show ?thesis by auto
next
  case False
  with assms have "messages_bulkAdd (filter (\<lambda>c. msg_id c \<notin> set (map msg_id tbl)) cs) tbl = Inr tbl'"
    by (cases cs) (simp_all add: Let_def)
  from messages_bulkAdd_Inr [OF this] show ?thesis by auto
qed

lemma merge_metadata_Inr:
  assumes "merge_metadata d s = Inr s1"
  shows "set (map chat_id (bd_chats d)) \<subseteq> set (map chat_id (chats s1))"
    and "set (map msg_id (bd_messages d)) \<subseteq> set (map msg_id (messages s1))"
    and "images s1 = images s"
proof -
  from assms obtain cs ms where
    c: "(if length (bd_chats d) > 0
            then let existingIds = set (map chat_id (chats s));
                     newChats = filter (\<lambda>c. chat_id c \<notin> existingIds) (bd_chats d)
                 in if length newChats > 0 then chats_bulkAdd newChats (chats s) else Inr (chats s)
            else Inr (chats s)) = Inr cs"
    and m: "(if length (bd_messages d) > 0
            then let existingIds = set (map msg_id (messages s));
                     newMessages = filter (\<lambda>c. msg_id c \<notin> existingIds) (bd_messages d)
                 in if length newMessages > 0 then messages_bulkAdd newMessages (messages s) else Inr (messages s)
            else Inr (messages s)) = Inr ms"
    and s1: "chats s1 = cs" "messages s1 = ms" "images s1 = images s"
    unfolding merge_metadata_def
    by (auto split: sum.splits prod.splits)
  from merge_chats_covers [OF c] s1 show "set (map chat_id (bd_chats d)) \<subseteq> set (map chat_id (chats s1))" by simp
  from merge_messages_covers [OF m] s1 show "set (map msg_id (bd_messages d)) \<subseteq> set (map msg_id (messages s1))" by simp
  from s1 show "images s1 = images s" by simp
qed

lemma merge_metadata_idle:
  assumes "set (map chat_id (bd_chats d)) \<subseteq> set (map chat_id (chats s))"
    and "set (map msg_id (bd_messages d)) \<subseteq> set (map msg_id (messages s))"
  shows "\<exists>s'. merge_metadata d s = Inr s' \<and> chats s' = chats s \<and> messages s' = messages s
           \<and> images s' = images s \<and> length (prompts s') = length (prompts s) + length (bd_prompts d)"
proof -
  have c: "filter (\<lambda>c. chat_id c \<notin> set (map chat_id (chats s))) (bd_chats d) = []"
    using assms(1) by (auto simp: filter_empty_conv)
  have m: "filter (\<lambda>c. msg_id c \<notin> set (map msg_id (messages s))) (bd_messages d) = []"
    using assms(2) by (auto simp: filter_empty_conv)
  obtain ps g where pb: "prompts_bulkAdd (map (\<lambda>p. p\<lparr>prompt_id := None\<rparr>) (bd_prompts d)) (prompts s) (promptKeyGen s) = (ps, g)"
    by (cases "prompts_bulkAdd (map (\<lambda>p. p\<lparr>prompt_id := None\<rparr>) (bd_prompts d)) (prompts s) (promptKeyGen s)")
  from length_prompts_bulkAdd [of "map (\<lambda>p. p\<lparr>prompt_id := None\<rparr>) (bd_prompts d)" "prompts s" "promptKeyGen s"]
  have len: "length ps = length (prompts s) + length (bd_prompts d)" by (simp add: pb)
  have C: "(if length (bd_chats d) > 0
            then let existingIds = set (map chat_id (chats s));
                     newChats = filter (\<lambda>c. chat_id c \<notin> existingIds) (bd_chats d)
                 in if length newChats > 0 then chats_bulkAdd newChats (chats s) else Inr (chats s)
            else Inr (chats s)) = Inr (chats s)"
    using c by (simp add: Let_def)
  have M: "(if length (bd_messages d) > 0
            then let existingIds = set (map msg_id (messages s));
                     newMessages = filter (\<lambda>m. msg_id m \<notin> existingIds) (bd_messages d)
                 in if length newMessages > 0 then messages_bulkAdd newMessages (messages s) else Inr (messages s)
            else Inr (messages s)) = Inr (messages s)"
    using m by (simp add: Let_def)
  show ?thesis
  proof (cases "bd_prompts d = []")
    case True
    then show ?thesis unfolding merge_metadata_def C M by simp
  next
    case False
    then show ?thesis unfolding merge_metadata_def C M using len by (simp add: pb Let_def)
  qed
qed

lemma import_zip_twice:
  assumes "importData resize atob (ZipFile z) s = (Inr c, s1)"
  shows "\<exists>s2. importData resize atob (ZipFile z) s1 = (Inr c, s2)
           \<and> chats s2 = chats s1 \<and> messages s2 = messages s1 \<and> images s2 = images s1
           \<and> length (prompts s2) = length (prompts s1) + length (file_prompts (ZipFile z))"
proof -
  from assms obtain dat where dat: "dataFile z = Some dat"
    by (auto simp: importData_def split: option.splits)
  from assms dat obtain sm where sm: "merge_metadata dat s = Inr sm"
    by (auto simp: importData_def split: sum.splits)
  from assms dat sm obtain tbl where
    b: "import_image_batches resize (imageFiles z) (bd_images dat) (images sm) = (None, tbl)"
    and s1: "s1 = sm\<lparr>images := tbl\<rparr>" and c: "c = config dat"
    by (auto simp: importData_def split: prod.splits option.splits)
  note cov = merge_metadata_Inr [OF sm]
  from import_image_batches_covers [OF b]
  have "\<forall>m\<in>set (bd_images dat). covered resize (imageFiles z) (images s1) m"
    by (simp add: s1)
  then have idle: "import_image_batches resize (imageFiles z) (bd_images dat) (images s1) = (None, images s1)"
    by (rule import_image_batches_idle)
  from merge_metadata_idle [of dat s1] cov s1
  obtain s' where s': "merge_metadata dat s1 = Inr s'" "chats s' = chats s1" "messages s' = messages s1"
    "images s' = images s1" "length (prompts s') = length (prompts s1) + length (bd_prompts dat)"
    by auto
  have "importData resize atob (ZipFile z) s1 = (Inr c, s'\<lparr>images := images s1\<rparr>)"
    using dat s' idle c by (simp add: importData_def)
  with s' dat show ?thesis by (simp add: file_prompts_def)
qed

lemma hydrate_ids: "hydrate atob xs = Inr hs \<Longrightarrow> map img_id hs = map li_id xs"
  by (induction xs arbitrary: hs) (auto split: option.splits sum.splits)

lemma images_bulkAdd_Inr: "images_bulkAdd rs tbl = Inr tbl' \<Longrightarrow> tbl' = tbl @ rs"
  by (auto simp: images_bulkAdd_def split: if_splits)

lemma legacy_chats_covers:
  assumes "(let existing = set (map chat_id tbl);
                toAdd = filter (\<lambda>x. chat_id x \<notin> existing) cs
            in if length toAdd > 0 then chats_bulkAdd toAdd tbl else Inr tbl) = Inr tbl'"
  shows "set (map chat_id cs) \<subseteq> set (map chat_id tbl')"
proof (cases "filter (\<lambda>c. chat_id c \<notin> set (map chat_id tbl)) cs = []")
  case True
  then have "\<forall>c\<in>set cs. chat_id c \<in> set (map chat_id tbl)" by (simp add: filter_empty_conv)
  moreover from assms True have "tbl' = tbl" by (simp add: Let_def split: if_splits)
  ultimately show ?thesis by auto
next
  case False
  with assms have "chats_bulkAdd (filter (\<lambda>c. chat_id c \<notin> set (map chat_id tbl)) cs) tbl = Inr tbl'"
    by (simp add: Let_def)
  from chats_bulkAdd_Inr [OF this] show ?thesis by auto
qed

lemma legacy_messages_covers:
  assumes "(let existing = set (map msg_id tbl);
                toAdd = filter (\<lambda>x. msg_id x \<notin> existing) cs
            in if length toAdd > 0 then messages_bulkAdd toAdd tbl else Inr tbl) = Inr tbl'"
  shows "set (map msg_id cs) \<subseteq> set (map msg_id tbl')"
proof (cases "filter (\<lambda>c. msg_id c \<notin> set (map msg_id tbl)) cs = []")
  case True
  then have "\<forall>c\<in>set cs. msg_id c \<in> set (map msg_id tbl)" by (simp add: filter_empty_conv)
  moreover from assms True have "tbl' = tbl" by (simp add: Let_def split: if_splits)
  ultimately show ?thesis by auto
next
  case False
  with assms have "messages_bulkAdd (filter (\<lambda>c. msg_id c \<notin> set (map msg_id tbl)) cs) tbl = Inr tbl'"
    by (simp add: Let_def)
  from messages_bulkAdd_Inr [OF this] show ?thesis by auto
qed

lemma legacy_images_covers:
  assumes "(if length (filter (\<lambda>x. li_id x \<notin> set (map img_id tbl)) xs) > 0
            then (case hydrate atob (filter (\<lambda>x. li_id x \<notin> set (map img_id tbl)) xs) of
                    Inl e \<Rightarrow> Inl e
                  | Inr hydratedImages \<Rightarrow> images_bulkAdd hydratedImages tbl)
            else Inr tbl) = Inr tbl'"
  shows "set (map li_id xs) \<subseteq> set (map img_id tbl')"
proof (cases "filter (\<lambda>x. li_id x \<notin> set (map img_id tbl)) xs = []")
  case True
  then have "\<forall>c\<in>set xs. li_id c \<in> set (map img_id tbl)" by (simp add: filter_empty_conv)
  moreover from assms True have "tbl' = tbl" by simp
  ultimately show ?thesis by auto
next
  case False
  let ?cands = "filter (\<lambda>x. li_id x \<notin> set (map img_id tbl)) xs"
  from assms False obtain hs where h: "hydrate atob ?cands = Inr hs" and a: "images_bulkAdd hs tbl = Inr tbl'"
    by (auto split: sum.splits)
  from images_bulkAdd_Inr [OF a] hydrate_ids [OF h]
  have "map img_id tbl' = map img_id tbl @ map li_id ?cands" by simp
  then have "set (map img_id tbl') = set (map img_id tbl) \<union> set (map li_id ?cands)"
    by (metis set_append)
  then show ?thesis by auto
qed

lemma importLegacyJson_Inr:
  assumes "importLegacyJson atob d s = (Inr c, s1)"
  shows "set (map chat_id (ld_chats d)) \<subseteq> set (map chat_id (chats s1))"
    and "set (map msg_id (ld_messages d)) \<subseteq> set (map msg_id (messages s1))"
    and "set (map li_id (ld_images d)) \<subseteq> set (map img_id (images s1))"
    and "c = ld_config d"
proof -
  let ?C = "let existing = set (map chat_id (chats s));
                toAdd = filter (\<lambda>x. chat_id x \<notin> existing) (ld_chats d)
            in if length toAdd > 0 then chats_bulkAdd toAdd (chats s) else Inr (chats s)"
  let ?M = "let existing = set (map msg_id (messages s));
                toAdd = filter (\<lambda>x. msg_id x \<notin> existing) (ld_messages d)
            in if length toAdd > 0 then messages_bulkAdd toAdd (messages s) else Inr (messages s)"
  let ?I = "if length (filter (\<lambda>x. li_id x \<notin> set (map img_id (images s))) (ld_images d)) > 0
            then (case hydrate atob (filter (\<lambda>x. li_id x \<notin> set (map img_id (images s))) (ld_images d)) of
                    Inl e \<Rightarrow> Inl e
                  | Inr hydratedImages \<Rightarrow> images_bulkAdd hydratedImages (images s))
            else Inr (images s)"
  obtain ps g where pb: "prompts_bulkAdd (map (\<lambda>p. p\<lparr>prompt_id := None\<rparr>) (ld_prompts d)) (prompts s) (promptKeyGen s) = (ps, g)"
    by (cases "prompts_bulkAdd (map (\<lambda>p. p\<lparr>prompt_id := None\<rparr>) (ld_prompts d)) (prompts s) (promptKeyGen s)")
  have unfold: "importLegacyJson atob d s =
      (case ?C of Inl e \<Rightarrow> (Inl e, s)
       | Inr cs \<Rightarrow> (case ?M of Inl e \<Rightarrow> (Inl e, s)
          | Inr ms \<Rightarrow> (case ?I of Inl e \<Rightarrow> (Inl e, s)
             | Inr imgs \<Rightarrow> (Inr (ld_config d),
                  s\<lparr>chats := cs, messages := ms, images := imgs, prompts := ps, promptKeyGen := g\<rparr>))))"
    unfolding importLegacyJson_def
    by (simp only: Let_def pb prod.case)
  from assms have A: "(case ?C of Inl e \<Rightarrow> (Inl e, s)
       | Inr cs \<Rightarrow> (case ?M of Inl e \<Rightarrow> (Inl e, s)
          | Inr ms \<Rightarrow> (case ?I of Inl e \<Rightarrow> (Inl e, s)
             | Inr imgs \<Rightarrow> (Inr (ld_config d),
                  s\<lparr>chats := cs, messages := ms, images := imgs, prompts := ps, promptKeyGen := g\<rparr>)))) = (Inr c, s1)"
    by (simp only: unfold)
  obtain cs where c: "?C = Inr cs" using A by (cases ?C) (simp_all del: set_map)
  obtain ms where m: "?M = Inr ms" using A c by (cases ?M) (simp_all del: set_map)
  obtain imgs where i: "?I = Inr imgs" using A c m by (cases ?I) (simp_all del: set_map)
  from A [unfolded c m i sum.case]
  have s1: "chats s1 = cs" "messages s1 = ms" "images s1 = imgs" "c = ld_config d"
    by auto
  from legacy_chats_covers [OF c] s1 show "set (map chat_id (ld_chats d)) \<subseteq> set (map chat_id (chats s1))" by simp
  from legacy_messages_covers [OF m] s1 show "set (map msg_id (ld_messages d)) \<subseteq> set (map msg_id (messages s1))" by simp
  from legacy_images_covers [OF i] s1 show "set (map li_id (ld_images d)) \<subseteq> set (map img_id (images s1))" by simp
  from s1 show "c = ld_config d" by simp
qed

lemma importLegacyJson_idle:
  assumes "set (map chat_id (ld_chats d)) \<subseteq> set (map chat_id (chats s))"
    and "set (map msg_id (ld_messages d)) \<subseteq> set (map msg_id (messages s))"
    and "set (map li_id (ld_images d)) \<subseteq> set (map img_id (images s))"
  shows "\<exists>s'. importLegacyJson atob d s = (Inr (ld_config d), s') \<and> chats s' = chats s
           \<and> messages s' = messages s \<and> images s' = images s
           \<and> length (prompts s') = length (prompts s) + length (ld_prompts d)"
proof -
  have C: "(let existing = set (map chat_id (chats s));
                toAdd = filter (\<lambda>x. chat_id x \<notin> existing) (ld_chats d)
            in if length toAdd > 0 then chats_bulkAdd toAdd (chats s) else Inr (chats s)) = Inr (chats s)"
    using assms(1) by (auto simp: Let_def filter_empty_conv)
  have M: "(let existing = set (map msg_id (messages s));
                toAdd = filter (\<lambda>x. msg_id x \<notin> existing) (ld_messages d)
            in if length toAdd > 0 then messages_bulkAdd toAdd (messages s) else Inr (messages s)) = Inr (messages s)"
    using assms(2) by (auto simp: Let_def filter_empty_conv)
  have I: "filter (\<lambda>x. li_id x \<notin> set (map img_id (images s))) (ld_images d) = []"
    using assms(3) by (auto simp: filter_empty_conv)
  obtain ps g where pb: "prompts_bulkAdd (map (\<lambda>p. p\<lparr>prompt_id := None\<rparr>) (ld_prompts d)) (prompts s) (promptKeyGen s) = (ps, g)"
    by (cases "prompts_bulkAdd (map (\<lambda>p. p\<lparr>prompt_id := None\<rparr>) (ld_prompts d)) (prompts s) (promptKeyGen s)")
  from length_prompts_bulkAdd [of "map (\<lambda>p. p\<lparr>prompt_id := None\<rparr>) (ld_prompts d)" "prompts s" "promptKeyGen s"]
  have len: "length ps = length (prompts s) + length (ld_prompts d)" by (simp add: pb)
  show ?thesis
    unfolding importLegacyJson_def C M
    using len by (simp only: Let_def pb I) simp
qed

lemma example_first_import:
  "importData (\<lambda>b. b) (\<lambda>x. None) (ZipFile example_archive) empty_store = (Inr None, example_imported)"
  by (simp add: importData_def example_archive_def example_manifest_def example_imported_def
      empty_store_def merge_metadata_def chats_bulkAdd_def messages_bulkAdd_def mk_message_def
      import_image_batches_step batch_items_def import_item_def image_filename_def mime_ext_def
      images_bulkAdd_def createThumbnail_def num_or_def Let_def)

lemma sparse_Nil [simp]: "sparse_index_ok []"
  by (simp add: sparse_index_ok_def)

lemma sparse_append [simp]:
  "sparse_index_ok (xs @ ys) \<longleftrightarrow> sparse_index_ok xs \<and> sparse_index_ok ys"
  by (simp add: sparse_index_ok_def)

lemma sparse_filter: "sparse_index_ok tbl \<Longrightarrow> sparse_index_ok (filter P tbl)"
  by (simp add: sparse_index_ok_def list_all_iff)

lemma sparse_bulkDelete: "sparse_index_ok tbl \<Longrightarrow> sparse_index_ok (images_bulkDelete ks tbl)"
  by (simp add: images_bulkDelete_def sparse_filter)

lemma sparse_row_bookmark [simp]: "sparse_row_ok (bookmark t r)"
  by (simp add: sparse_row_ok_def bookmark_def)

lemma sparse_row_unbookmark [simp]: "sparse_row_ok (unbookmark r)"
  by (simp add: sparse_row_ok_def unbookmark_def)

lemma sparse_row_new_image [simp]: "sparse_row_ok (new_image k b th mt now)"
  by (simp add: sparse_row_ok_def new_image_def)

lemma sparse_updateRow:
  "sparse_index_ok tbl \<Longrightarrow> (\<And>r. sparse_row_ok (f r)) \<Longrightarrow> sparse_index_ok (images_updateRow k f tbl)"
  by (auto simp: sparse_index_ok_def images_updateRow_def list_all_iff)

lemma sparse_fold_updateRow:
  "sparse_index_ok tbl \<Longrightarrow> (\<And>x r. sparse_row_ok (f x r)) \<Longrightarrow>
   sparse_index_ok (fold (\<lambda>x t. images_updateRow (key x) (f x) t) xs tbl)"
  by (induction xs arbitrary: tbl) (simp_all add: sparse_updateRow)

lemma sparse_images_add:
  "images_add r tbl = Inr tbl' \<Longrightarrow> sparse_row_ok r \<Longrightarrow> sparse_index_ok tbl \<Longrightarrow> sparse_index_ok tbl'"
  by (auto simp: images_add_def sparse_index_ok_def split: if_splits)

lemma sparse_images_bulkAdd:
  "images_bulkAdd rs tbl = Inr tbl' \<Longrightarrow> sparse_index_ok rs \<Longrightarrow> sparse_index_ok tbl \<Longrightarrow> sparse_index_ok tbl'"
  by (auto simp: images_bulkAdd_def split: if_splits)

lemma sparse_store_files:
  "sparse_index_ok tbl \<Longrightarrow> sparse_index_ok (fst (snd (store_files fs tbl ids)))"
proof (induction fs arbitrary: tbl ids)
  case Nil
  then show ?case by simp
next
  case (Cons f fs)
  show ?case
  proof (cases "images_add (new_image (nf_imgId f) (nf_blob f) (nf_thumb f) (nf_mime f) (nf_now f)) tbl")
    case (Inl e)
    with Cons.prems show ?thesis by simp
  next
    case (Inr tbl')
    from sparse_images_add [OF Inr _ Cons.prems] have "sparse_index_ok tbl'" by simp
    from Cons.IH [OF this] Inr Cons.prems show ?thesis by simp
  qed
qed

lemma sparse_save_generated:
  "sparse_index_ok tbl \<Longrightarrow> sparse_index_ok (snd (save_generated gs tbl ids))"
proof (induction gs arbitrary: tbl ids)
  case Nil
  then show ?case by simp
next
  case (Cons g gs)
  show ?case
  proof (cases "images_add (new_image (gen_imgId g) (gen_blob g) (gen_thumb g) (gen_type g) (gen_now g)) tbl")
    case (Inl e)
    with Cons.prems show ?thesis by simp
  next
    case (Inr tbl')
    from sparse_images_add [OF Inr _ Cons.prems] have "sparse_index_ok tbl'" by simp
    from Cons.IH [OF this] Inr show ?thesis by simp
  qed
qed

lemma images_record_error [simp]: "images (record_error cid errId errorMsg errNow s) = images s"
  by (simp add: record_error_def split: sum.splits)

lemma sparse_handleSendMessage:
  "sparse_index_ok (images s) \<Longrightarrow> sparse_index_ok (images (snd (handleSendMessage a key k txt files now s)))"
  using sparse_store_files [of "images s" files "[]"]
  by (auto simp: handleSendMessage_def split: option.splits prod.splits bool.splits sum.splits)

lemma sparse_processGeneration:
  "sparse_index_ok (images s) \<Longrightarrow>
   sparse_index_ok (images (snd (processGeneration cid res errId errorMsg errNow now s)))"
proof (cases res)
  case (ApiCompleted gens m)
  assume "sparse_index_ok (images s)"
  from sparse_save_generated [OF this, of gens "[]"] show ?thesis
    unfolding ApiCompleted
    by (auto simp: processGeneration_def split: prod.splits sum.splits)
qed (simp_all add: processGeneration_def)

lemma sparse_deleteImagesIfOrphaned:
  "sparse_index_ok (images s) \<Longrightarrow> sparse_index_ok (images (deleteImagesIfOrphaned ids s))"
  by (simp add: deleteImagesIfOrphaned_images sparse_bulkDelete)

lemma images_deleteMessagesWithCleanup:
  "\<exists>ks. images (deleteMessagesWithCleanup ids s) = images_bulkDelete ks (images s)"
proof (cases "ids = []")
  case True
  then have "images (deleteMessagesWithCleanup ids s) = images_bulkDelete [] (images s)"
    by (simp add: deleteMessagesWithCleanup_def)
  then show ?thesis ..
next
  case False
  let ?s1 = "s\<lparr>messages := messages_bulkDelete ids (messages s)\<rparr>"
  let ?c = "array_from_set (concat (map msg_imageIds (filter (\<lambda>m. msg_id m \<in> set ids) (messages s))))"
  have "deleteMessagesWithCleanup ids s = deleteImagesIfOrphaned ?c ?s1"
    using False by (simp add: deleteMessagesWithCleanup_def Let_def deleteImagesIfOrphaned_def)
  then show ?thesis by (simp add: deleteImagesIfOrphaned_images) blast
qed

lemma sparse_deleteMessagesWithCleanup:
  "sparse_index_ok (images s) \<Longrightarrow> sparse_index_ok (images (deleteMessagesWithCleanup ids s))"
  using images_deleteMessagesWithCleanup [of ids s] by (auto simp: sparse_bulkDelete)

lemma sparse_deleteMessagesSafe:
  "sparse_index_ok (images s) \<Longrightarrow> sparse_index_ok (images (deleteMessagesSafe ids s))"
  by (simp add: deleteMessagesSafe_images sparse_bulkDelete)

lemma images_deleteChatWithCleanup:
  "\<exists>ks. images (deleteChatWithCleanup cid s) = images_bulkDelete ks (images s)"
proof -
  let ?msgs = "filter (\<lambda>m. chatId m = cid) (messages s)"
  let ?s1 = "s\<lparr>messages := messages_bulkDelete (map msg_id ?msgs) (messages s)\<rparr>"
  let ?s2 = "?s1\<lparr>chats := chats_delete cid (chats ?s1)\<rparr>"
  let ?c = "array_from_set (concat (map msg_imageIds ?msgs))"
  have "deleteChatWithCleanup cid s = deleteImagesIfOrphaned ?c ?s2"
    by (simp add: deleteChatWithCleanup_def Let_def deleteImagesIfOrphaned_def)
  then show ?thesis by (simp add: deleteImagesIfOrphaned_images) blast
qed

lemma sparse_deleteChatWithCleanup:
  "sparse_index_ok (images s) \<Longrightarrow> sparse_index_ok (images (deleteChatWithCleanup cid s))"
  using images_deleteChatWithCleanup [of cid s] by (auto simp: sparse_bulkDelete)

lemma images_forceDeleteImages:
  "images (forceDeleteImages ids s) = images_bulkDelete ids (images s)"
  by (cases "ids = []") (simp_all add: forceDeleteImages_def Let_def)

lemma images_cleanupOrphanedImages:
  "\<exists>ks. images (fst (cleanupOrphanedImages flt s)) = images_bulkDelete ks (images s)"
proof (cases "cleanupOrphanedImages_txn flt s")
  case (Inl e)
  then have "images (fst (cleanupOrphanedImages flt s)) = images_bulkDelete [] (images s)"
    by (simp add: cleanupOrphanedImages_def)
  then show ?thesis ..
next
  case (Inr r)
  obtain s' n where r: "r = (s', n)" by (cases r)
  from cleanupOrphanedImages_txn_Inr [OF Inr [unfolded r]] Inr r show ?thesis
    by (auto simp: cleanupOrphanedImages_def)
qed

lemma sparse_handleEditMessage:
  assumes "sparse_index_ok (images s)"
  shows "sparse_index_ok (images (handleEditMessage a k txt kept files s))"
proof (cases "messages_get k (messages s)")
  case None
  with assms show ?thesis by (simp add: handleEditMessage_def)
next
  case (Some targetMsg)
  show ?thesis
  proof (cases a)
    case None
    with assms Some show ?thesis by (simp add: handleEditMessage_def)
  next
    case (Some cid)
    let ?s1 = "deleteMessagesWithCleanup
                 (map msg_id (filter (\<lambda>m. chatId m = cid \<and> timestamp m > timestamp targetMsg) (messages s))) s"
    have s1: "sparse_index_ok (images ?s1)" using assms by (rule sparse_deleteMessagesWithCleanup)
    obtain fin tbl ids where sf: "store_files files (images ?s1) kept = (fin, tbl, ids)"
      by (cases "store_files files (images ?s1) kept") auto
    from sparse_store_files [OF s1, of files kept] sf have tbl: "sparse_index_ok tbl" by simp
    have "sparse_index_ok (images (deleteImagesIfOrphaned xs (?s1\<lparr>images := tbl\<rparr>)))" for xs
      using tbl by (simp add: sparse_deleteImagesIfOrphaned)
    with tbl assms show ?thesis
      using \<open>messages_get k (messages s) = Some targetMsg\<close> Some sf
      by (auto simp: handleEditMessage_def Let_def split: bool.splits option.splits)
  qed
qed

lemma images_handleFork [simp]: "images (handleFork a k c uuid t now s) = images s"
  by (auto simp: handleFork_def Let_def split: option.splits sum.splits)

lemma sparse_handleToggleGallery:
  "sparse_index_ok (images s) \<Longrightarrow> sparse_index_ok (images (snd (handleToggleGallery ids s)))"
  using sparse_fold_updateRow [of "images s" "\<lambda>img. bookmark (createdAt img)" img_id]
    sparse_fold_updateRow [of "images s" "\<lambda>img. unbookmark" img_id]
  by (auto simp: handleToggleGallery_def Let_def)

lemma sparse_handleBulkUnbookmark:
  "sparse_index_ok (images s) \<Longrightarrow> sparse_index_ok (images (handleBulkUnbookmark ids s))"
  using sparse_fold_updateRow [of "images s" "\<lambda>k. unbookmark" "\<lambda>k. k"]
  by (simp add: handleBulkUnbookmark_def)

lemma sparse_handleToggleBookmark:
  "sparse_index_ok (images s) \<Longrightarrow> sparse_index_ok (images (snd (handleToggleBookmark imageId s)))"
  by (auto simp: handleToggleBookmark_def Let_def sparse_updateRow split: option.splits)

lemma sparse_import_item: "sparse_index_ok (import_item resize files m)"
  by (simp add: import_item_def Let_def sparse_index_ok_def sparse_row_ok_def split: option.splits)

lemma sparse_batch_items: "sparse_index_ok (batch_items resize files batch tbl)"
  unfolding batch_items_def
  by (induction batch) (simp_all add: sparse_import_item)

lemma sparse_import_image_batches:
  "sparse_index_ok tbl \<Longrightarrow> sparse_index_ok (snd (import_image_batches resize files metas tbl))"
proof (induction "length metas" arbitrary: metas tbl rule: less_induct)
  case less
  show ?case
  proof (cases "metas = []")
    case True
    with less.prems show ?thesis by simp
  next
    case False
    have shorter: "length (drop 5 metas) < length metas" using False by (cases metas) auto
    let ?items = "batch_items resize files (take 5 metas) tbl"
    show ?thesis
    proof (cases "?items = []")
      case True
      with False less.hyps [OF shorter less.prems] show ?thesis
        by (simp add: import_image_batches_step)
    next
      case nonempty: False
      show ?thesis
      proof (cases "images_bulkAdd ?items tbl")
        case (Inl e)
        with False nonempty less.prems show ?thesis by (simp add: import_image_batches_step)
      next
        case (Inr tbl')
        from sparse_images_bulkAdd [OF Inr sparse_batch_items less.prems]
        have "sparse_index_ok tbl'" .
        from less.hyps [OF shorter this] False nonempty Inr show ?thesis
          by (simp add: import_image_batches_step)
      qed
    qed
  qed
qed

lemma images_merge_metadata: "merge_metadata d s = Inr s1 \<Longrightarrow> images s1 = images s"
  by (rule merge_metadata_Inr(3))

lemma sparse_hydrate: "hydrate atob xs = Inr hs \<Longrightarrow> sparse_index_ok hs"
  by (induction xs arbitrary: hs)
     (auto simp: sparse_index_ok_def sparse_row_ok_def split: option.splits sum.splits)

lemma sparse_importLegacyJson:
  assumes "sparse_index_ok (images s)"
  shows "sparse_index_ok (images (snd (importLegacyJson atob d s)))"
proof -
  let ?cands = "filter (\<lambda>x. li_id x \<notin> set (map img_id (images s))) (ld_images d)"
  have "sparse_index_ok tbl'"
    if "(if length ?cands > 0
         then (case hydrate atob ?cands of Inl e \<Rightarrow> Inl e
               | Inr hydratedImages \<Rightarrow> images_bulkAdd hydratedImages (images s))
         else Inr (images s)) = Inr tbl'" for tbl'
    using that assms
    by (auto split: if_splits sum.splits dest: sparse_hydrate sparse_images_bulkAdd)
  with assms show ?thesis
    unfolding importLegacyJson_def Let_def
    by (auto split: sum.splits prod.splits simp del: set_map)
qed

lemma sparse_importData:
  assumes "sparse_index_ok (images s)"
  shows "sparse_index_ok (images (snd (importData resize atob file s)))"
proof (cases "file")
  case (JsonFile d)
  with assms show ?thesis by (simp add: importData_def sparse_importLegacyJson)
next
  case (ZipFile z)
  show ?thesis
  proof (cases "dataFile z")
    case None
    with assms ZipFile show ?thesis by (simp add: importData_def)
  next
    case (Some dat)
    show ?thesis
    proof (cases "merge_metadata dat s")
      case (Inl e)
      with assms ZipFile Some show ?thesis by (simp add: importData_def)
    next
      case (Inr s1)
      from images_merge_metadata [OF Inr] assms have "sparse_index_ok (images s1)" by simp
      from sparse_import_image_batches [OF this, of resize "imageFiles z" "bd_images dat"]
      show ?thesis using ZipFile Some Inr
        by (auto simp: importData_def split: prod.splits option.splits)
    qed
  qed
qed

lemma sparse_upgrade_v3:
  "list_all (\<lambda>r. galleryTimestamp r = None) (images s0) \<Longrightarrow> sparse_index_ok (images (upgrade_v3 s0))"
  by (auto simp: upgrade_v3_def sparse_index_ok_def sparse_row_ok_def list_all_iff)

lemma sparse_upgrade_v3_preserves:
  "sparse_index_ok (images s) \<Longrightarrow> sparse_index_ok (images (upgrade_v3 s))"
  by (auto simp: upgrade_v3_def sparse_index_ok_def sparse_row_ok_def list_all_iff split: option.splits)

lemma image_invariant_iff:
  "image_invariant s \<longleftrightarrow>
     (\<forall>img\<in>set (images s). isGalleryVisible img \<or> (\<exists>m\<in>set (messages s). img_id img \<in> set (msg_imageIds m)))"
  by (simp add: image_invariant_def list_all_iff isImageReferenced_iff)

lemma image_invariant_mono:
  assumes "image_invariant s" "set (images s') \<subseteq> set (images s)" "set (messages s) \<subseteq> set (messages s')"
  shows "image_invariant s'"
  using assms unfolding image_invariant_iff by blast

lemma distinct_bulkDelete_img: "distinct (map img_id tbl) \<Longrightarrow> distinct (map img_id (images_bulkDelete ks tbl))"
  by (simp add: images_bulkDelete_def distinct_map_filter)

lemma distinct_bulkDelete_msg: "distinct (map msg_id tbl) \<Longrightarrow> distinct (map msg_id (messages_bulkDelete ks tbl))"
  by (simp add: messages_bulkDelete_def distinct_map_filter)

lemma images_add_Inr:
  "images_add r tbl = Inr tbl' \<Longrightarrow> tbl' = tbl @ [r] \<and> img_id r \<notin> set (map img_id tbl)"
  by (auto simp: images_add_def split: if_splits)

lemma messages_add_Inr:
  "messages_add m tbl = Inr tbl' \<Longrightarrow> tbl' = tbl @ [m] \<and> msg_id m \<notin> set (map msg_id tbl)"
  by (auto simp: messages_add_def split: if_splits)

lemma chats_add_Inr:
  "chats_add c tbl = Inr tbl' \<Longrightarrow> tbl' = tbl @ [c] \<and> chat_id c \<notin> set (map chat_id tbl)"
  by (auto simp: chats_add_def split: if_splits)

lemma store_files_True:
  "store_files fs tbl ids = (True, tbl', ids') \<Longrightarrow>
     ids' = ids @ map nf_imgId fs
     \<and> set tbl' \<subseteq> set tbl \<union> {r. \<not> isGalleryVisible r \<and> img_id r \<in> set (map nf_imgId fs)}
     \<and> set tbl \<subseteq> set tbl'"
proof (induction fs arbitrary: tbl ids)
  case Nil
  then show ?case by simp
next
  case (Cons f fs)
  let ?r = "new_image (nf_imgId f) (nf_blob f) (nf_thumb f) (nf_mime f) (nf_now f)"
  from Cons.prems obtain tbl1 where add: "images_add ?r tbl = Inr tbl1"
    and rest: "store_files fs tbl1 (ids @ [nf_imgId f]) = (True, tbl', ids')"
    by (auto split: if_splits sum.splits)
  from images_add_Inr [OF add] have t1: "tbl1 = tbl @ [?r]" by simp
  have r: "img_id ?r = nf_imgId f" "\<not> isGalleryVisible ?r" by (simp_all add: new_image_def)
  from Cons.IH [OF rest] show ?case
    using t1 r by auto
qed

lemma distinct_images_add:
  "images_add r tbl = Inr tbl' \<Longrightarrow> distinct (map img_id tbl) \<Longrightarrow> distinct (map img_id tbl')"
  by (auto simp: images_add_def split: if_splits)

lemma store_files_distinct:
  "distinct (map img_id tbl) \<Longrightarrow> distinct (map img_id (fst (snd (store_files fs tbl ids))))"
proof (induction fs arbitrary: tbl ids)
  case Nil
  then show ?case by simp
next
  case (Cons f fs)
  show ?case
  proof (cases "images_add (new_image (nf_imgId f) (nf_blob f) (nf_thumb f) (nf_mime f) (nf_now f)) tbl")
    case (Inl e)
    with Cons.prems show ?thesis by simp
  next
    case (Inr tbl')
    from Cons.IH [OF distinct_images_add [OF Inr Cons.prems]] Inr Cons.prems show ?thesis by simp
  qed
qed

lemma save_generated_Inr:
  "save_generated gs tbl ids = (Inr ids', tbl') \<Longrightarrow>
     ids' = ids @ map gen_imgId gs
     \<and> set tbl' \<subseteq> set tbl \<union> {r. \<not> isGalleryVisible r \<and> img_id r \<in> set (map gen_imgId gs)}
     \<and> set tbl \<subseteq> set tbl'"
proof (induction gs arbitrary: tbl ids)
  case Nil
  then show ?case by simp
next
  case (Cons g gs)
  let ?r = "new_image (gen_imgId g) (gen_blob g) (gen_thumb g) (gen_type g) (gen_now g)"
  from Cons.prems obtain tbl1 where add: "images_add ?r tbl = Inr tbl1"
    and rest: "save_generated gs tbl1 (ids @ [gen_imgId g]) = (Inr ids', tbl')"
    by (auto split: sum.splits)
  from images_add_Inr [OF add] have t1: "tbl1 = tbl @ [?r]" by simp
  have r: "img_id ?r = gen_imgId g" "\<not> isGalleryVisible ?r" by (simp_all add: new_image_def)
  from Cons.IH [OF rest] show ?case
    using t1 r by auto
qed

lemma save_generated_distinct:
  "distinct (map img_id tbl) \<Longrightarrow> distinct (map img_id (snd (save_generated gs tbl ids)))"
proof (induction gs arbitrary: tbl ids)
  case Nil
  then show ?case by simp
next
  case (Cons g gs)
  show ?case
  proof (cases "images_add (new_image (gen_imgId g) (gen_blob g) (gen_thumb g) (gen_type g) (gen_now g)) tbl")
    case (Inl e)
    with Cons.prems show ?thesis by simp
  next
    case (Inr tbl')
    from Cons.IH [OF distinct_images_add [OF Inr Cons.prems]] Inr show ?thesis by simp
  qed
qed

lemma invariant_after_append:
  assumes inv: "image_invariant s"
    and imgs: "set tbl' \<subseteq> set (images s) \<union> {r. \<not> isGalleryVisible r \<and> img_id r \<in> set ids}"
    and m: "msg_imageIds m = ids"
  shows "image_invariant (s\<lparr>images := tbl', messages := messages s @ [m]\<rparr>)"
  using assms unfolding image_invariant_iff by (auto 4 3)

lemma sent_preserves:
  assumes "handleSendMessage a key k body files now s = (True, s')" "wf_store s" "image_invariant s"
  shows "image_invariant s' \<and> wf_store s'"
proof -
  from assms(1) obtain cid tbl ids ms where
    sf: "store_files files (images s) [] = (True, tbl, ids)"
    and add: "messages_add \<lparr>msg_id = k, chatId = cid, role = User, msg_text = body,
                          imageIds = Some ids, timestamp = now, thoughts = None, meta = None,
                          msg_error = None\<rparr> (messages s) = Inr ms"
    and s': "s' = s\<lparr>images := tbl, messages := ms\<rparr>"
    by (auto simp: handleSendMessage_def split: option.splits if_splits prod.splits bool.splits sum.splits)
  let ?m = "\<lparr>msg_id = k, chatId = cid, role = User, msg_text = body,
                          imageIds = Some ids, timestamp = now, thoughts = None, meta = None,
                          msg_error = None\<rparr>"
  note f = store_files_True [OF sf]
  from messages_add_Inr [OF add] have ms: "ms = messages s @ [?m]" and fresh: "k \<notin> set (map msg_id (messages s))"
    by simp_all
  have "image_invariant (s\<lparr>images := tbl, messages := messages s @ [?m]\<rparr>)"
    by (rule invariant_after_append [OF assms(3), of tbl ids]) (use f in \<open>auto simp: msg_imageIds_def\<close>)
  moreover have "distinct (map img_id tbl)"
    using store_files_distinct [of "images s" files "[]"] assms(2) sf by (simp add: wf_store_def)
  then have "wf_store s'"
    using assms(2) fresh unfolding s' ms wf_store_def by simp
  ultimately show ?thesis unfolding s' ms by simp
qed

lemma chat_id_updateRow: "(\<And>c. chat_id (f c) = chat_id c) \<Longrightarrow> map chat_id (chats_updateRow k f tbl) = map chat_id tbl"
  by (simp add: chats_updateRow_def)

lemma image_invariant_chats [simp]: "image_invariant (s\<lparr>chats := cs\<rparr>) = image_invariant s"
  by (simp add: image_invariant_def)

lemma generated_preserves:
  assumes "processGeneration cid res errId errorMsg errNow now s = (True, s')" "wf_store s" "image_invariant s"
  shows "image_invariant s' \<and> wf_store s'"
proof -
  from assms(1) obtain gens m where res: "res = ApiCompleted gens m"
    by (cases res) (auto simp: processGeneration_def)
  from assms(1) obtain tbl ids ms where
    sg: "save_generated gens (images s) [] = (Inr ids, tbl)"
    and add: "messages_add (m\<lparr>chatId := cid, role := Model, imageIds := Some ids\<rparr>) (messages s) = Inr ms"
    and s': "s' = s\<lparr>images := tbl, messages := ms,
                     chats := chats_updateRow cid (\<lambda>c. c\<lparr>updatedAt := now\<rparr>) (chats s)\<rparr>"
    unfolding res by (auto simp: processGeneration_def split: prod.splits sum.splits)
  let ?m = "m\<lparr>chatId := cid, role := Model, imageIds := Some ids\<rparr>"
  note f = save_generated_Inr [OF sg]
  from messages_add_Inr [OF add] have ms: "ms = messages s @ [?m]" and fresh: "msg_id m \<notin> set (map msg_id (messages s))"
    by simp_all
  have "image_invariant (s\<lparr>images := tbl, messages := messages s @ [?m]\<rparr>)"
    by (rule invariant_after_append [OF assms(3), of tbl ids]) (use f in \<open>auto simp: msg_imageIds_def\<close>)
  moreover have "distinct (map img_id tbl)"
    using save_generated_distinct [of "images s" gens "[]"] assms(2) sg by (simp add: wf_store_def)
  then have "wf_store s'"
    using assms(2) fresh unfolding s' ms wf_store_def by (simp add: chat_id_updateRow)
  ultimately show ?thesis unfolding s' ms by simp
qed

lemma messages_bulkAdd_Inr2:
  "messages_bulkAdd ms tbl = Inr tbl' \<Longrightarrow> distinct (map msg_id tbl) \<Longrightarrow> distinct (map msg_id tbl')"
  by (auto simp: messages_bulkAdd_def list_all_iff split: if_splits) (metis imageI)

lemma forked_preserves:
  assumes "wf_store s" "image_invariant s"
  shows "image_invariant (handleFork a k c uuid t now s) \<and> wf_store (handleFork a k c uuid t now s)"
proof -
  let ?s' = "handleFork a k c uuid t now s"
  have msgs: "set (messages s) \<subseteq> set (messages ?s')"
    by (auto simp: handleFork_def Let_def split: option.splits sum.splits dest!: messages_bulkAdd_Inr)
  have "image_invariant ?s'"
    by (rule image_invariant_mono [OF assms(2) _ msgs]) simp
  moreover have "wf_store ?s'"
    using assms(1)
    by (auto simp: handleFork_def Let_def wf_store_def split: option.splits sum.splits
        dest!: chats_add_Inr dest: messages_bulkAdd_Inr2)
  ultimately show ?thesis ..
qed

lemma deleteImagesIfOrphaned_establishes:
  assumes "\<forall>r\<in>set (images s). \<not> isGalleryVisible r \<and> \<not> isImageReferenced (messages s) (img_id r)
             \<longrightarrow> img_id r \<in> set cands"
  shows "image_invariant (deleteImagesIfOrphaned cands s)"
  unfolding image_invariant_def list_all_iff
proof
  fix r assume "r \<in> set (images (deleteImagesIfOrphaned cands s))"
  then have r: "r \<in> set (images s)"
    and no: "\<not> (\<exists>c\<in>set (images s). img_id c = img_id r \<and> img_id c \<in> set cands \<and>
           \<not> isGalleryVisible c \<and> \<not> isImageReferenced (messages s) (img_id c))"
    unfolding deleteImagesIfOrphaned_mem by auto
  show "isGalleryVisible r \<or> isImageReferenced (messages (deleteImagesIfOrphaned cands s)) (img_id r)"
  proof (rule ccontr)
    assume "\<not> ?thesis"
    then have bad: "\<not> isGalleryVisible r" "\<not> isImageReferenced (messages s) (img_id r)" by simp_all
    with assms r have "img_id r \<in> set cands" by blast
    with no r bad show False by blast
  qed
qed

lemma wf_deleteImagesIfOrphaned: "wf_store s \<Longrightarrow> wf_store (deleteImagesIfOrphaned ids s)"
  by (simp add: wf_store_def deleteImagesIfOrphaned_images distinct_bulkDelete_img)

lemma orphans_deleted_preserves:
  assumes "wf_store s" "image_invariant s"
  shows "image_invariant (deleteImagesIfOrphaned ids s) \<and> wf_store (deleteImagesIfOrphaned ids s)"
proof -
  have "set (images (deleteImagesIfOrphaned ids s)) \<subseteq> set (images s)"
    by (auto simp: deleteImagesIfOrphaned_mem)
  from image_invariant_mono [OF assms(2) this] wf_deleteImagesIfOrphaned [OF assms(1)]
  show ?thesis by simp
qed

lemma deleteMessagesWithCleanup_eq:
  "ids \<noteq> [] \<Longrightarrow> deleteMessagesWithCleanup ids s =
     deleteImagesIfOrphaned
       (array_from_set (concat (map msg_imageIds (filter (\<lambda>m. msg_id m \<in> set ids) (messages s)))))
       (s\<lparr>messages := messages_bulkDelete ids (messages s)\<rparr>)"
  by (simp add: deleteMessagesWithCleanup_def Let_def deleteImagesIfOrphaned_def)

lemma messages_deleted_preserves:
  assumes "wf_store s" "image_invariant s"
  shows "image_invariant (deleteMessagesWithCleanup ids s) \<and> wf_store (deleteMessagesWithCleanup ids s)"
proof (cases "ids = []")
  case True
  with assms show ?thesis by (simp add: deleteMessagesWithCleanup_def)
next
  case False
  let ?s1 = "s\<lparr>messages := messages_bulkDelete ids (messages s)\<rparr>"
  let ?c = "array_from_set (concat (map msg_imageIds (filter (\<lambda>m. msg_id m \<in> set ids) (messages s))))"
  have "image_invariant (deleteImagesIfOrphaned ?c ?s1)"
  proof (rule deleteImagesIfOrphaned_establishes, intro ballI impI)
    fix r assume r: "r \<in> set (images ?s1)"
      and bad: "\<not> isGalleryVisible r \<and> \<not> isImageReferenced (messages ?s1) (img_id r)"
    from assms(2) r bad obtain m where m: "m \<in> set (messages s)" "img_id r \<in> set (msg_imageIds m)"
      unfolding image_invariant_iff by auto
    with bad have "msg_id m \<in> set ids"
      by (auto simp: isImageReferenced_iff messages_bulkDelete_def)
    with m show "img_id r \<in> set ?c" by auto
  qed
  moreover have "wf_store ?s1" using assms(1) by (simp add: wf_store_def distinct_bulkDelete_msg)
  then have "wf_store (deleteImagesIfOrphaned ?c ?s1)" by (rule wf_deleteImagesIfOrphaned)
  ultimately show ?thesis unfolding deleteMessagesWithCleanup_eq [OF False] ..
qed

lemma deleteChatWithCleanup_eq:
  "deleteChatWithCleanup cid s =
     deleteImagesIfOrphaned
       (array_from_set (concat (map msg_imageIds (filter (\<lambda>m. chatId m = cid) (messages s)))))
       (s\<lparr>messages := messages_bulkDelete (map msg_id (filter (\<lambda>m. chatId m = cid) (messages s))) (messages s),
          chats := chats_delete cid (chats s)\<rparr>)"
  by (simp add: deleteChatWithCleanup_def Let_def deleteImagesIfOrphaned_def)

lemma chat_deleted_preserves:
  assumes "wf_store s" "image_invariant s"
  shows "image_invariant (deleteChatWithCleanup cid s) \<and> wf_store (deleteChatWithCleanup cid s)"
proof -
  let ?msgs = "filter (\<lambda>m. chatId m = cid) (messages s)"
  let ?s2 = "s\<lparr>messages := messages_bulkDelete (map msg_id ?msgs) (messages s),
          chats := chats_delete cid (chats s)\<rparr>"
  let ?c = "array_from_set (concat (map msg_imageIds ?msgs))"
  from assms(1) have dm: "distinct (map msg_id (messages s))" by (simp add: wf_store_def)
  have "image_invariant (deleteImagesIfOrphaned ?c ?s2)"
  proof (rule deleteImagesIfOrphaned_establishes, intro ballI impI)
    fix r assume r: "r \<in> set (images ?s2)"
      and bad: "\<not> isGalleryVisible r \<and> \<not> isImageReferenced (messages ?s2) (img_id r)"
    from assms(2) r bad obtain m where m: "m \<in> set (messages s)" "img_id r \<in> set (msg_imageIds m)"
      unfolding image_invariant_iff by auto
    with bad have "msg_id m \<in> set (map msg_id ?msgs)"
      by (auto simp: isImageReferenced_iff messages_bulkDelete_def)
    then obtain m' where m': "m' \<in> set ?msgs" "msg_id m' = msg_id m" by auto
    with dm m(1) have "m' = m" by (auto simp: distinct_map inj_on_def)
    with m' m show "img_id r \<in> set ?c" by auto
  qed
  moreover have "wf_store ?s2"
    using assms(1) by (simp add: wf_store_def distinct_bulkDelete_msg chats_delete_def distinct_map_filter)
  then have "wf_store (deleteImagesIfOrphaned ?c ?s2)" by (rule wf_deleteImagesIfOrphaned)
  ultimately show ?thesis unfolding deleteChatWithCleanup_eq ..
qed

lemma messages_deleteMessagesSafe [simp]:
  "messages (deleteMessagesSafe S s) = messages_bulkDelete S (messages s)"
  by (simp add: deleteMessagesSafe_def Let_def)

lemma chats_deleteMessagesSafe [simp]: "chats (deleteMessagesSafe S s) = chats s"
  by (simp add: deleteMessagesSafe_def Let_def)

lemma messages_deleted_safe_preserves:
  assumes "wf_store s" "image_invariant s"
  shows "image_invariant (deleteMessagesSafe S s) \<and> wf_store (deleteMessagesSafe S s)"
proof -
  from assms(1) have dm: "distinct (map msg_id (messages s))" and di: "distinct (map img_id (images s))"
    by (simp_all add: wf_store_def)
  let ?valid = "concat (map (\<lambda>m. case m of None \<Rightarrow> [] | Some x \<Rightarrow> [x]) (messages_bulkGet S (messages s)))"
  let ?all = "array_from_set (concat (map msg_imageIds ?valid))"
  have "image_invariant (deleteMessagesSafe S s)"
    unfolding image_invariant_iff
  proof
    fix r assume r': "r \<in> set (images (deleteMessagesSafe S s))"
    then have r: "r \<in> set (images s)"
      and keep: "img_id r \<notin> set (deleteMessagesSafe_loop S (messages s) (images_bulkGet ?all (images s)) [])"
      unfolding deleteMessagesSafe_images images_bulkDelete_def by auto
    show "isGalleryVisible r \<or> (\<exists>m\<in>set (messages (deleteMessagesSafe S s)). img_id r \<in> set (msg_imageIds m))"
    proof (rule ccontr)
      assume "\<not> ?thesis"
      then have nv: "\<not> isGalleryVisible r"
        and unref: "\<forall>m\<in>set (messages s). img_id r \<in> set (msg_imageIds m) \<longrightarrow> msg_id m \<in> set S"
        by (auto simp: messages_bulkDelete_def)
      from assms(2) r nv obtain m where m: "m \<in> set (messages s)" "img_id r \<in> set (msg_imageIds m)"
        unfolding image_invariant_iff by auto
      with unref have inS: "msg_id m \<in> set S" by blast
      have "messages_get (msg_id m) (messages s) = Some m" using dm m(1) by (simp add: find_distinct_msg)
      with inS have "m \<in> set ?valid" by (force simp: messages_bulkGet_def)
      with m(2) have "img_id r \<in> set ?all" by auto
      moreover have "images_get (img_id r) (images s) = Some r" using di r by (simp add: find_distinct_img)
      ultimately have "Some r \<in> set (images_bulkGet ?all (images s))" by (force simp: images_bulkGet_def)
      with nv unref have "img_id r \<in> set (deleteMessagesSafe_loop S (messages s) (images_bulkGet ?all (images s)) [])"
        unfolding set_deleteMessagesSafe_loop by auto
      with keep show False by contradiction
    qed
  qed
  moreover have "wf_store (deleteMessagesSafe S s)"
    using assms(1)
    by (simp add: wf_store_def deleteMessagesSafe_images distinct_bulkDelete_img distinct_bulkDelete_msg)
  ultimately show ?thesis ..
qed

lemma chats_forceDeleteImages [simp]: "chats (forceDeleteImages ids s) = chats s"
  by (simp add: forceDeleteImages_def Let_def)

lemma force_deleted_preserves:
  assumes "wf_store s" "image_invariant s"
  shows "image_invariant (forceDeleteImages ids s) \<and> wf_store (forceDeleteImages ids s)"
proof -
  from assms(1) have dm: "distinct (map msg_id (messages s))" by (simp add: wf_store_def)
  note msgs = forceDeleteImages_messages_eq [OF dm, of ids]
  have "image_invariant (forceDeleteImages ids s)"
    unfolding image_invariant_iff images_forceDeleteImages msgs images_bulkDelete_def
  proof
    fix r assume "r \<in> set (filter (\<lambda>r. img_id r \<notin> set ids) (images s))"
    then have r: "r \<in> set (images s)" "img_id r \<notin> set ids" by auto
    show "isGalleryVisible r \<or> (\<exists>m\<in>set (map (removeImageRefs ids) (messages s)). img_id r \<in> set (msg_imageIds m))"
    proof (cases "isGalleryVisible r")
      case False
      with assms(2) r obtain m where m: "m \<in> set (messages s)" "img_id r \<in> set (msg_imageIds m)"
        unfolding image_invariant_iff by auto
      with r(2) have "img_id r \<in> set (msg_imageIds (removeImageRefs ids m))"
        by (cases "imageIds m") (simp_all add: removeImageRefs_def msg_imageIds_def)
      with m(1) show ?thesis by auto
    qed simp
  qed
  moreover have "msg_id \<circ> removeImageRefs ids = msg_id"
    by (rule ext) simp
  then have "wf_store (forceDeleteImages ids s)"
    using assms(1) unfolding wf_store_def msgs images_forceDeleteImages
    by (simp add: distinct_bulkDelete_img)
  ultimately show ?thesis ..
qed

lemma cleanupOrphanedImages_fst:
  "\<exists>ks. fst (cleanupOrphanedImages flt s) = s\<lparr>images := images_bulkDelete ks (images s)\<rparr>"
proof (cases "cleanupOrphanedImages_txn flt s")
  case (Inl e)
  then have "fst (cleanupOrphanedImages flt s) = s\<lparr>images := images_bulkDelete [] (images s)\<rparr>"
    by (simp add: cleanupOrphanedImages_def)
  then show ?thesis ..
next
  case (Inr r)
  obtain s' n where r: "r = (s', n)" by (cases r)
  from cleanupOrphanedImages_txn_Inr [OF Inr [unfolded r]] Inr r show ?thesis
    by (auto simp: cleanupOrphanedImages_def)
qed

lemma swept_preserves:
  assumes "wf_store s" "image_invariant s"
  shows "image_invariant (fst (cleanupOrphanedImages flt s)) \<and> wf_store (fst (cleanupOrphanedImages flt s))"
proof -
  from cleanupOrphanedImages_fst [of flt s] obtain ks where
    eq: "fst (cleanupOrphanedImages flt s) = s\<lparr>images := images_bulkDelete ks (images s)\<rparr>" ..
  have "image_invariant (s\<lparr>images := images_bulkDelete ks (images s)\<rparr>)"
    by (rule image_invariant_mono [OF assms(2)]) (auto simp: images_bulkDelete_def)
  moreover have "wf_store (s\<lparr>images := images_bulkDelete ks (images s)\<rparr>)"
    using assms(1) by (simp add: wf_store_def distinct_bulkDelete_img)
  ultimately show ?thesis unfolding eq ..
qed

lemma cleanupOrphanedImages_no_faults:
  "fst (cleanupOrphanedImages no_faults s) =
     s\<lparr>images := images_bulkDelete
         (filter (\<lambda>i. \<not> isImageReferenced (messages s) i)
            (map img_id (filter (\<lambda>img. \<not> isGalleryVisible img) (images s)))) (images s)\<rparr>"
proof -
  define cands where "cands = map img_id (filter (\<lambda>img. \<not> isGalleryVisible img) (images s))"
  define td where "td = filter (\<lambda>i. \<not> isImageReferenced (messages s) i) cands"
  have nf: "\<not> no_faults k" for k by (simp add: no_faults_def)
  have loop: "cleanup_loop no_faults 1 (messages s) cands [] = Inr td"
    using cleanup_loop_no_faults [of 1 "messages s" cands "[]"] by (simp add: td_def)
  have txn: "cleanupOrphanedImages_txn no_faults s =
      (if length cands = 0 then Inr (s, 0)
       else if length td > 0 then Inr (s\<lparr>images := images_bulkDelete td (images s)\<rparr>, length td)
       else Inr (s, length td))"
    unfolding cleanupOrphanedImages_txn_def Let_def cands_def [symmetric]
    by (simp only: nf loop if_False sum.case)
  have "fst (cleanupOrphanedImages no_faults s) = s\<lparr>images := images_bulkDelete td (images s)\<rparr>"
  proof (cases "cands = []")
    case True
    then have "td = []" by (simp add: td_def)
    with True show ?thesis by (simp add: cleanupOrphanedImages_def txn)
  next
    case False
    then show ?thesis by (cases "td = []") (simp_all add: cleanupOrphanedImages_def txn)
  qed
  then show ?thesis unfolding td_def cands_def .
qed

lemma sweep_establishes: "image_invariant (fst (cleanupOrphanedImages no_faults s))"
  unfolding cleanupOrphanedImages_no_faults image_invariant_def list_all_iff images_bulkDelete_def
  by auto

lemma bookmark_idem [simp]: "bookmark t (bookmark t r) = bookmark t r"
  by (simp add: bookmark_def)

lemma unbookmark_idem [simp]: "unbookmark (unbookmark r) = unbookmark r"
  by (simp add: unbookmark_def)

lemma img_id_bookmark [simp]: "img_id (bookmark t r) = img_id r"
  by (simp add: bookmark_def)

lemma img_id_unbookmark [simp]: "img_id (unbookmark r) = img_id r"
  by (simp add: unbookmark_def)

lemma fold_bookmark_rows:
  assumes "distinct (map img_id tbl)" "set xs \<subseteq> set tbl"
  shows "fold (\<lambda>img t. images_updateRow (img_id img) (bookmark (createdAt img)) t) xs tbl
         = map (\<lambda>r. if r \<in> set xs then bookmark (createdAt r) r else r) tbl"
  using assms(2)
proof (induction xs rule: rev_induct)
  case Nil
  then show ?case by simp
next
  case (snoc x xs)
  then have IH: "fold (\<lambda>img t. images_updateRow (img_id img) (bookmark (createdAt img)) t) xs tbl
         = map (\<lambda>r. if r \<in> set xs then bookmark (createdAt r) r else r) tbl"
    and x: "x \<in> set tbl" by auto
  have same: "\<And>r. r \<in> set tbl \<Longrightarrow> img_id r = img_id x \<longleftrightarrow> r = x"
    using assms(1) x by (auto simp: distinct_map inj_on_def)
  let ?F = "\<lambda>img t. images_updateRow (img_id img) (bookmark (createdAt img)) t"
  have "fold ?F (xs @ [x]) tbl = ?F x (fold ?F xs tbl)" by simp
  also have "\<dots> = images_updateRow (img_id x) (bookmark (createdAt x))
                      (map (\<lambda>r. if r \<in> set xs then bookmark (createdAt r) r else r) tbl)"
    by (simp only: IH)
  also have "\<dots> = map (\<lambda>r. if r \<in> set (xs @ [x]) then bookmark (createdAt r) r else r) tbl"
    unfolding images_updateRow_def map_map by (rule map_cong) (auto simp: same)
  finally show ?case .
qed

lemma fold_unbookmark_rows:
  "fold (\<lambda>img t. images_updateRow (img_id img) unbookmark t) xs tbl
     = map (\<lambda>r. if img_id r \<in> img_id ` set xs then unbookmark r else r) tbl"
proof (induction xs rule: rev_induct)
  case Nil
  then show ?case by simp
next
  case (snoc x xs)
  let ?F = "\<lambda>img t. images_updateRow (img_id img) unbookmark t"
  have "fold ?F (xs @ [x]) tbl = ?F x (fold ?F xs tbl)" by simp
  also have "\<dots> = images_updateRow (img_id x) unbookmark
                      (map (\<lambda>r. if img_id r \<in> img_id ` set xs then unbookmark r else r) tbl)"
    by (simp only: snoc)
  also have "\<dots> = map (\<lambda>r. if img_id r \<in> img_id ` set (xs @ [x]) then unbookmark r else r) tbl"
    unfolding images_updateRow_def map_map by (rule map_cong) auto
  finally show ?case .
qed

lemma fold_unbookmark_ids:
  "fold (\<lambda>k t. images_updateRow k unbookmark t) ids tbl
     = map (\<lambda>r. if img_id r \<in> set ids then unbookmark r else r) tbl"
proof (induction ids rule: rev_induct)
  case Nil
  then show ?case by simp
next
  case (snoc x xs)
  let ?F = "\<lambda>k t. images_updateRow k unbookmark t"
  have "fold ?F (xs @ [x]) tbl = ?F x (fold ?F xs tbl)" by simp
  also have "\<dots> = images_updateRow x unbookmark
                      (map (\<lambda>r. if img_id r \<in> set xs then unbookmark r else r) tbl)"
    by (simp only: snoc)
  also have "\<dots> = map (\<lambda>r. if img_id r \<in> set (xs @ [x]) then unbookmark r else r) tbl"
    unfolding images_updateRow_def map_map by (rule map_cong) auto
  finally show ?case .
qed

lemma set_validRows_bulkGet:
  assumes "distinct (map img_id tbl)"
  shows "set (validRows (images_bulkGet ids tbl)) = {r \<in> set tbl. img_id r \<in> set ids}"
proof -
  have "Some r \<in> set (images_bulkGet ids tbl) \<longleftrightarrow> r \<in> set tbl \<and> img_id r \<in> set ids" for r
  proof -
    have "Some r \<in> set (images_bulkGet ids tbl) \<longleftrightarrow> (\<exists>k\<in>set ids. images_get k tbl = Some r)"
      by (auto simp: images_bulkGet_def image_iff) metis
    also have "\<dots> \<longleftrightarrow> r \<in> set tbl \<and> img_id r \<in> set ids"
      by (auto simp: find_distinct_img [OF assms])
    finally show ?thesis .
  qed
  then show ?thesis unfolding set_validRows by auto
qed

lemma handleToggleGallery_cases:
  assumes "distinct (map img_id (images s))"
  shows "handleToggleGallery ids s =
     (if \<exists>r\<in>set (images s). img_id r \<in> set ids \<and> \<not> isGalleryVisible r
      then if int (length (filter (\<lambda>i. \<not> isGalleryVisible i) (validRows (images_bulkGet ids (images s)))))
                > 50 - int (galleryCountVisible (images s))
           then (GalleryFull, s)
           else (Done, s\<lparr>images := map (\<lambda>r. if img_id r \<in> set ids \<and> \<not> isGalleryVisible r
                                               then bookmark (createdAt r) r else r) (images s)\<rparr>)
      else (Done, s\<lparr>images := map (\<lambda>r. if img_id r \<in> set ids then unbookmark r else r) (images s)\<rparr>))"
proof -
  let ?valid = "validRows (images_bulkGet ids (images s))"
  let ?toSave = "filter (\<lambda>i. \<not> isGalleryVisible i) ?valid"
  note sv = set_validRows_bulkGet [OF assms, of ids]
  have any: "list_ex (\<lambda>i. \<not> isGalleryVisible i) ?valid
             \<longleftrightarrow> (\<exists>r\<in>set (images s). img_id r \<in> set ids \<and> \<not> isGalleryVisible r)"
    unfolding list_ex_iff sv by auto
  have "set ?toSave \<subseteq> set (images s)" using sv by auto
  from fold_bookmark_rows [OF assms this]
  have b: "fold (\<lambda>img t. images_updateRow (img_id img) (bookmark (createdAt img)) t) ?toSave (images s)
        = map (\<lambda>r. if img_id r \<in> set ids \<and> \<not> isGalleryVisible r then bookmark (createdAt r) r else r) (images s)"
    using sv by (auto intro!: map_cong)
  have "img_id ` set ?valid \<inter> img_id ` set (images s) = set ids \<inter> img_id ` set (images s)"
    using sv by auto
  then have u: "fold (\<lambda>img t. images_updateRow (img_id img) unbookmark t) ?valid (images s)
        = map (\<lambda>r. if img_id r \<in> set ids then unbookmark r else r) (images s)"
    unfolding fold_unbookmark_rows by (intro map_cong refl) auto
  show ?thesis
    unfolding handleToggleGallery_def Let_def validRows_def [symmetric] any b u
    by simp
qed

lemma invariant_after_promotion:
  assumes "image_invariant s" "wf_store s"
    and "\<And>r. img_id (f r) = img_id r \<and> (isGalleryVisible r \<longrightarrow> isGalleryVisible (f r))"
  shows "image_invariant (s\<lparr>images := map f (images s)\<rparr>) \<and> wf_store (s\<lparr>images := map f (images s)\<rparr>)"
proof -
  have "img_id \<circ> f = img_id" using assms(3) by auto
  then have "wf_store (s\<lparr>images := map f (images s)\<rparr>)" using assms(2) by (simp add: wf_store_def)
  moreover have "image_invariant (s\<lparr>images := map f (images s)\<rparr>)"
    using assms(1,3) unfolding image_invariant_iff by auto
  ultimately show ?thesis by simp
qed

lemma bookmarked_bulk_preserves:
  assumes "wf_store s" "image_invariant s"
    and "list_ex (\<lambda>r. img_id r \<in> set ids \<and> \<not> isGalleryVisible r) (images s)"
  shows "image_invariant (snd (handleToggleGallery ids s)) \<and> wf_store (snd (handleToggleGallery ids s))"
proof -
  from assms(1) have d: "distinct (map img_id (images s))" by (simp add: wf_store_def)
  from assms(3) have ex: "\<exists>r\<in>set (images s). img_id r \<in> set ids \<and> \<not> isGalleryVisible r"
    by (simp add: list_ex_iff)
  have "image_invariant (s\<lparr>images := map (\<lambda>r. if img_id r \<in> set ids \<and> \<not> isGalleryVisible r
                                               then bookmark (createdAt r) r else r) (images s)\<rparr>)
      \<and> wf_store (s\<lparr>images := map (\<lambda>r. if img_id r \<in> set ids \<and> \<not> isGalleryVisible r
                                               then bookmark (createdAt r) r else r) (images s)\<rparr>)"
    by (rule invariant_after_promotion [OF assms(2,1)]) (simp add: bookmark_def)
  with assms(1,2) ex show ?thesis
    unfolding handleToggleGallery_cases [OF d] by simp
qed

lemma bookmarked_preserves:
  assumes "wf_store s" "image_invariant s"
    and "images_get k (images s) = Some r" "\<not> isGalleryVisible r"
  shows "image_invariant (snd (handleToggleBookmark (Some k) s)) \<and> wf_store (snd (handleToggleBookmark (Some k) s))"
proof -
  have "image_invariant (s\<lparr>images := map (\<lambda>x. if img_id x = k then bookmark (createdAt r) x else x) (images s)\<rparr>)
      \<and> wf_store (s\<lparr>images := map (\<lambda>x. if img_id x = k then bookmark (createdAt r) x else x) (images s)\<rparr>)"
    by (rule invariant_after_promotion [OF assms(2,1)]) (simp add: bookmark_def)
  with assms show ?thesis
    by (simp add: handleToggleBookmark_def Let_def images_updateRow_def)
qed

lemma example_send_result:
  "handleSendMessage (Some ''c1'') ''key'' ''m1'' ''hi'' [example_file] 6 empty_store =
     (True, \<lparr>chats = [],
             messages = [\<lparr>msg_id = ''m1'', chatId = ''c1'', role = User, msg_text = ''hi'',
                          imageIds = Some [''x''], timestamp = 6, thoughts = None, meta = None,
                          msg_error = None\<rparr>],
             images = [new_image ''x'' [1] [1] ''image/png'' 5], prompts = [], promptKeyGen = 1\<rparr>)"
  by (simp add: handleSendMessage_def example_file_def empty_store_def is_blank_def images_add_def
      messages_add_def new_image_def)

lemma example_sent_eq:
  "example_sent =
     \<lparr>chats = [],
      messages = [\<lparr>msg_id = ''m1'', chatId = ''c1'', role = User, msg_text = ''hi'',
                   imageIds = Some [''x''], timestamp = 6, thoughts = None, meta = None,
                   msg_error = None\<rparr>],
      images = [new_image ''x'' [1] [1] ''image/png'' 5], prompts = [], promptKeyGen = 1\<rparr>"
  by (simp add: example_sent_def example_send_result)

lemma example_bookmarked_eq:
  "example_bookmarked = example_sent\<lparr>images := [bookmark 5 (new_image ''x'' [1] [1] ''image/png'' 5)]\<rparr>"
  by (simp add: example_bookmarked_def example_sent_eq handleToggleGallery_def Let_def
      images_bulkGet_def images_get_def galleryCountVisible_def images_updateRow_def new_image_def)

lemma example_deleted_eq:
  "example_deleted = example_bookmarked\<lparr>messages := []\<rparr>"
  by (simp add: example_deleted_def example_bookmarked_eq example_sent_eq deleteMessagesWithCleanup_def
      Let_def messages_bulkDelete_def array_from_set_def set_add_def msg_imageIds_def
      deleteImagesIfOrphaned_def bookmark_def new_image_def)

lemma example_unbookmarked_eq:
  "example_unbookmarked = example_deleted\<lparr>images := [new_image ''x'' [1] [1] ''image/png'' 5]\<rparr>"
  by (simp add: example_unbookmarked_def example_deleted_eq example_bookmarked_eq example_sent_eq
      handleBulkUnbookmark_def images_updateRow_def bookmark_def unbookmark_def new_image_def)

lemma example_orphan_import:
  "images (snd (importData (\<lambda>b. b) (\<lambda>x. None) (ZipFile example_orphan_archive) empty_store))
     = [\<lparr>img_id = ''x'', blob = [1, 2, 3], thumbnail = Some [1, 2, 3],
                  mimeType = ''image/png'', createdAt = 5, isGalleryVisible = False,
                  galleryTimestamp = None\<rparr>]
   \<and> messages (snd (importData (\<lambda>b. b) (\<lambda>x. None) (ZipFile example_orphan_archive) empty_store)) = []"
  by (simp add: importData_def example_orphan_archive_def example_manifest_def
      empty_store_def merge_metadata_def chats_bulkAdd_def messages_bulkAdd_def
      import_image_batches_step batch_items_def import_item_def image_filename_def mime_ext_def
      images_bulkAdd_def createThumbnail_def num_or_def Let_def)

text \<open>The edit handler leaves the attachment it removed in the store, unreferenced.\<close>

lemma handleEditMessage_leaves_orphan:
  "handleEditMessage (Some ''c1'') ''m1'' ''hi'' [] [] example_sent
     = example_sent\<lparr>messages := [\<lparr>msg_id = ''m1'', chatId = ''c1'', role = User, msg_text = ''hi'',
                   imageIds = Some [], timestamp = 6, thoughts = None, meta = None,
                   msg_error = None\<rparr>]\<rparr>
   \<and> \<not> image_invariant (handleEditMessage (Some ''c1'') ''m1'' ''hi'' [] [] example_sent)"
proof -
  have e: "handleEditMessage (Some ''c1'') ''m1'' ''hi'' [] [] example_sent
     = example_sent\<lparr>messages := [\<lparr>msg_id = ''m1'', chatId = ''c1'', role = User, msg_text = ''hi'',
                   imageIds = Some [], timestamp = 6, thoughts = None, meta = None,
                   msg_error = None\<rparr>]\<rparr>"
    by (simp add: handleEditMessage_def example_sent_eq messages_get_def deleteMessagesWithCleanup_def
        Let_def deleteImagesIfOrphaned_def isImageReferenced_def msg_imageIds_def new_image_def
        messages_updateRow_def)
  show ?thesis unfolding e
    by (simp add: example_sent_eq image_invariant_def isImageReferenced_def msg_imageIds_def new_image_def)
qed

text \<open>
  Primary keys stay unique in every reachable store, so the uniqueness that several of
  the claims below assume is an invariant of the application.
\<close>

lemma distinct_messages_add:
  "messages_add m tbl = Inr tbl' \<Longrightarrow> distinct (map msg_id tbl) \<Longrightarrow> distinct (map msg_id tbl')"
  by (auto simp: messages_add_def split: if_splits)

lemma distinct_chats_bulkAdd:
  "chats_bulkAdd cs tbl = Inr tbl' \<Longrightarrow> distinct (map chat_id tbl) \<Longrightarrow> distinct (map chat_id tbl')"
  by (auto simp: chats_bulkAdd_def list_all_iff split: if_splits) (metis imageI)

lemma distinct_images_bulkAdd:
  "images_bulkAdd rs tbl = Inr tbl' \<Longrightarrow> distinct (map img_id tbl) \<Longrightarrow> distinct (map img_id tbl')"
  by (auto simp: images_bulkAdd_def list_all_iff split: if_splits) (metis imageI)

lemma wf_store_chats_prompts [simp]:
  "wf_store (s\<lparr>prompts := ps\<rparr>) = wf_store s" "wf_store (s\<lparr>promptKeyGen := g\<rparr>) = wf_store s"
  by (simp_all add: wf_store_def)

lemma wf_handleSendMessage:
  assumes "wf_store s"
  shows "wf_store (snd (handleSendMessage a key k body files now s))"
proof -
  obtain fin tbl ids where sf: "store_files files (images s) [] = (fin, tbl, ids)"
    by (cases "store_files files (images s) []") auto
  from store_files_distinct [of "images s" files "[]"] assms sf
  have d: "distinct (map img_id tbl)" by (simp add: wf_store_def)
  with assms sf show ?thesis
    by (auto simp: handleSendMessage_def wf_store_def split: option.splits bool.splits sum.splits
        dest: distinct_messages_add)
qed

lemma wf_record_error: "wf_store s \<Longrightarrow> wf_store (record_error cid errId errorMsg errNow s)"
  by (auto simp: record_error_def wf_store_def split: sum.splits dest: distinct_messages_add)

lemma wf_processGeneration:
  assumes "wf_store s"
  shows "wf_store (snd (processGeneration cid res errId errorMsg errNow now s))"
proof (cases res)
  case (ApiCompleted gens m)
  obtain r tbl where sg: "save_generated gens (images s) [] = (r, tbl)"
    by (cases "save_generated gens (images s) []") auto
  from save_generated_distinct [of "images s" gens "[]"] assms sg
  have d: "distinct (map img_id tbl)" by (simp add: wf_store_def)
  then have w: "wf_store (s\<lparr>images := tbl\<rparr>)" using assms by (simp add: wf_store_def)
  show ?thesis
  proof (cases r)
    case (Inl e)
    with sg ApiCompleted wf_record_error [OF w] show ?thesis
      by (simp add: processGeneration_def)
  next
    case (Inr ids)
    show ?thesis
    proof (cases "messages_add (m\<lparr>chatId := cid, role := Model, imageIds := Some ids\<rparr>) (messages s)")
      case (Inl e)
      with sg ApiCompleted Inr wf_record_error [OF w] show ?thesis
        by (simp add: processGeneration_def)
    next
      case ms: (Inr ms)
      from distinct_messages_add [OF ms] assms have "distinct (map msg_id ms)" by (simp add: wf_store_def)
      with sg ApiCompleted Inr ms d assms show ?thesis
        by (simp add: processGeneration_def wf_store_def chat_id_updateRow)
    qed
  qed
next
  case ApiAborted
  with assms show ?thesis by (simp add: processGeneration_def)
next
  case ApiFailed
  with assms show ?thesis by (simp add: processGeneration_def wf_record_error)
qed

lemma wf_deleteMessagesWithCleanup: "wf_store s \<Longrightarrow> wf_store (deleteMessagesWithCleanup ids s)"
proof (cases "ids = []")
  case True
  assume "wf_store s"
  with True show ?thesis by (simp add: deleteMessagesWithCleanup_def)
next
  case False
  assume "wf_store s"
  then have "wf_store (s\<lparr>messages := messages_bulkDelete ids (messages s)\<rparr>)"
    by (simp add: wf_store_def distinct_bulkDelete_msg)
  then show ?thesis
    unfolding deleteMessagesWithCleanup_eq [OF False] by (rule wf_deleteImagesIfOrphaned)
qed

lemma msg_id_updateRow:
  "(\<And>m. msg_id (f m) = msg_id m) \<Longrightarrow> map msg_id (messages_updateRow k f tbl) = map msg_id tbl"
  by (simp add: messages_updateRow_def)

lemma img_id_updateRow:
  "(\<And>r. img_id (f r) = img_id r) \<Longrightarrow> map img_id (images_updateRow k f tbl) = map img_id tbl"
  by (simp add: images_updateRow_def)

lemma wf_handleEditMessage:
  assumes "wf_store s"
  shows "wf_store (handleEditMessage a k body kept files s)"
proof (cases "messages_get k (messages s)")
  case None
  with assms show ?thesis by (simp add: handleEditMessage_def)
next
  case (Some targetMsg)
  note target = Some
  show ?thesis
  proof (cases a)
    case None
    with assms target show ?thesis by (simp add: handleEditMessage_def)
  next
    case (Some cid)
    let ?s1 = "deleteMessagesWithCleanup
                 (map msg_id (filter (\<lambda>m. chatId m = cid \<and> timestamp m > timestamp targetMsg) (messages s))) s"
    have s1: "wf_store ?s1" using assms by (rule wf_deleteMessagesWithCleanup)
    obtain fin tbl ids where sf: "store_files files (images ?s1) kept = (fin, tbl, ids)"
      by (cases "store_files files (images ?s1) kept") auto
    from store_files_distinct [of "images ?s1" files kept] s1 sf
    have "distinct (map img_id tbl)" by (simp add: wf_store_def)
    with s1 have w2: "wf_store (?s1\<lparr>images := tbl\<rparr>)" by (simp add: wf_store_def)
    have upd: "wf_store (st\<lparr>messages := messages_updateRow k (\<lambda>m. m\<lparr>msg_text := body, imageIds := Some ids\<rparr>) (messages st)\<rparr>)"
      if "wf_store st" for st
      using that by (simp add: wf_store_def msg_id_updateRow)
    have "wf_store (deleteImagesIfOrphaned xs (?s1\<lparr>images := tbl\<rparr>))" for xs
      using w2 by (rule wf_deleteImagesIfOrphaned)
    with w2 assms target Some sf upd show ?thesis
      by (auto simp: handleEditMessage_def Let_def split: bool.splits option.splits)
  qed
qed

lemma wf_handleBulkUnbookmark: "wf_store s \<Longrightarrow> wf_store (handleBulkUnbookmark ids s)"
proof -
  assume "wf_store s"
  moreover have "img_id \<circ> (\<lambda>r. if img_id r \<in> set ids then unbookmark r else r) = img_id"
    by (rule ext) simp
  ultimately show ?thesis
    by (simp add: handleBulkUnbookmark_def fold_unbookmark_ids wf_store_def)
qed

lemma wf_handleToggleGallery: "wf_store s \<Longrightarrow> wf_store (snd (handleToggleGallery ids s))"
proof -
  assume wf: "wf_store s"
  then have d: "distinct (map img_id (images s))" by (simp add: wf_store_def)
  have 1: "img_id \<circ> (\<lambda>r. if img_id r \<in> set ids \<and> \<not> isGalleryVisible r then bookmark (createdAt r) r else r) = img_id"
    by (rule ext) simp
  have 2: "img_id \<circ> (\<lambda>r. if img_id r \<in> set ids then unbookmark r else r) = img_id"
    by (rule ext) simp
  show ?thesis
    unfolding handleToggleGallery_cases [OF d] using wf by (simp add: wf_store_def 1 2)
qed

lemma wf_handleToggleBookmark: "wf_store s \<Longrightarrow> wf_store (snd (handleToggleBookmark imageId s))"
  by (auto simp: handleToggleBookmark_def Let_def wf_store_def img_id_updateRow split: option.splits)

lemma wf_merge_metadata:
  assumes "merge_metadata d s = Inr s1" "wf_store s"
  shows "wf_store s1"
proof -
  let ?C = "if length (bd_chats d) > 0
            then let existingIds = set (map chat_id (chats s));
                     newChats = filter (\<lambda>c. chat_id c \<notin> existingIds) (bd_chats d)
                 in if length newChats > 0 then chats_bulkAdd newChats (chats s) else Inr (chats s)
            else Inr (chats s)"
  let ?M = "if length (bd_messages d) > 0
            then let existingIds = set (map msg_id (messages s));
                     newMessages = filter (\<lambda>m. msg_id m \<notin> existingIds) (bd_messages d)
                 in if length newMessages > 0 then messages_bulkAdd newMessages (messages s)
                    else Inr (messages s)
            else Inr (messages s)"
  from assms(1) obtain cs where c: "?C = Inr cs"
    unfolding merge_metadata_def by (cases ?C) (simp_all del: set_map)
  from assms(1) c obtain ms where m: "?M = Inr ms"
    unfolding merge_metadata_def by (cases ?M) (simp_all del: set_map)
  from assms(1) have s1: "chats s1 = cs" "messages s1 = ms" "images s1 = images s"
    unfolding merge_metadata_def c m by (auto split: prod.splits)
  from c assms(2) have "distinct (map chat_id cs)"
    by (auto simp: Let_def wf_store_def split: if_splits dest: distinct_chats_bulkAdd)
  moreover from m assms(2) have "distinct (map msg_id ms)"
    by (auto simp: Let_def wf_store_def split: if_splits dest: messages_bulkAdd_Inr2)
  ultimately show ?thesis using s1 assms(2) by (simp add: wf_store_def)
qed

lemma distinct_import_image_batches:
  "distinct (map img_id tbl) \<Longrightarrow> distinct (map img_id (snd (import_image_batches resize files metas tbl)))"
proof (induction "length metas" arbitrary: metas tbl rule: less_induct)
  case less
  show ?case
  proof (cases "metas = []")
    case True
    with less.prems show ?thesis by simp
  next
    case False
    have shorter: "length (drop 5 metas) < length metas" using False by (cases metas) auto
    let ?items = "batch_items resize files (take 5 metas) tbl"
    show ?thesis
    proof (cases "?items = []")
      case True
      with False less.hyps [OF shorter less.prems] show ?thesis
        by (simp add: import_image_batches_step)
    next
      case nonempty: False
      show ?thesis
      proof (cases "images_bulkAdd ?items tbl")
        case (Inl e)
        with False nonempty less.prems show ?thesis by (simp add: import_image_batches_step)
      next
        case (Inr tbl')
        from less.hyps [OF shorter distinct_images_bulkAdd [OF Inr less.prems]] False nonempty Inr
        show ?thesis by (simp add: import_image_batches_step)
      qed
    qed
  qed
qed

lemma wf_importLegacyJson:
  assumes "wf_store s"
  shows "wf_store (snd (importLegacyJson atob d s))"
proof -
  let ?C = "let existing = set (map chat_id (chats s));
                toAdd = filter (\<lambda>x. chat_id x \<notin> existing) (ld_chats d)
            in if length toAdd > 0 then chats_bulkAdd toAdd (chats s) else Inr (chats s)"
  let ?M = "let existing = set (map msg_id (messages s));
                toAdd = filter (\<lambda>x. msg_id x \<notin> existing) (ld_messages d)
            in if length toAdd > 0 then messages_bulkAdd toAdd (messages s) else Inr (messages s)"
  let ?I = "if length (filter (\<lambda>x. li_id x \<notin> set (map img_id (images s))) (ld_images d)) > 0
            then (case hydrate atob (filter (\<lambda>x. li_id x \<notin> set (map img_id (images s))) (ld_images d)) of
                    Inl e \<Rightarrow> Inl e
                  | Inr hydratedImages \<Rightarrow> images_bulkAdd hydratedImages (images s))
            else Inr (images s)"
  obtain ps g where pb: "prompts_bulkAdd (map (\<lambda>p. p\<lparr>prompt_id := None\<rparr>) (ld_prompts d)) (prompts s) (promptKeyGen s) = (ps, g)"
    by (cases "prompts_bulkAdd (map (\<lambda>p. p\<lparr>prompt_id := None\<rparr>) (ld_prompts d)) (prompts s) (promptKeyGen s)")
  have unfold: "importLegacyJson atob d s =
      (case ?C of Inl e \<Rightarrow> (Inl e, s)
       | Inr cs \<Rightarrow> (case ?M of Inl e \<Rightarrow> (Inl e, s)
          | Inr ms \<Rightarrow> (case ?I of Inl e \<Rightarrow> (Inl e, s)
             | Inr imgs \<Rightarrow> (Inr (ld_config d),
                  s\<lparr>chats := cs, messages := ms, images := imgs, prompts := ps, promptKeyGen := g\<rparr>))))"
    unfolding importLegacyJson_def
    by (simp only: Let_def pb prod.case)
  have c: "distinct (map chat_id cs)" if "?C = Inr cs" for cs
    using that assms by (auto simp: Let_def wf_store_def split: if_splits dest: distinct_chats_bulkAdd)
  have m: "distinct (map msg_id ms)" if "?M = Inr ms" for ms
    using that assms by (auto simp: Let_def wf_store_def split: if_splits dest: messages_bulkAdd_Inr2)
  have i: "distinct (map img_id imgs)" if "?I = Inr imgs" for imgs
    using that assms by (auto simp: wf_store_def split: if_splits sum.splits dest: distinct_images_bulkAdd)
  show ?thesis
  proof (cases ?C)
    case (Inl e)
    with assms show ?thesis unfolding unfold by simp
  next
    case C: (Inr cs)
    show ?thesis
    proof (cases ?M)
      case (Inl e)
      with assms C show ?thesis unfolding unfold by simp
    next
      case M: (Inr ms)
      show ?thesis
      proof (cases ?I)
        case (Inl e)
        with assms C M show ?thesis unfolding unfold by simp
      next
        case I: (Inr imgs)
        from c [OF C] m [OF M] i [OF I] show ?thesis
          unfolding unfold C M I by (simp add: wf_store_def)
      qed
    qed
  qed
qed

lemma wf_importData:
  assumes "wf_store s"
  shows "wf_store (snd (importData resize atob file s))"
proof (cases "file")
  case (JsonFile d)
  with assms show ?thesis by (simp add: importData_def wf_importLegacyJson)
next
  case (ZipFile z)
  show ?thesis
  proof (cases "dataFile z")
    case None
    with assms ZipFile show ?thesis by (simp add: importData_def)
  next
    case (Some dat)
    show ?thesis
    proof (cases "merge_metadata dat s")
      case (Inl e)
      with assms ZipFile Some show ?thesis by (simp add: importData_def)
    next
      case (Inr s1)
      from wf_merge_metadata [OF Inr assms] have w: "wf_store s1" .
      then have "distinct (map img_id (images s1))" by (simp add: wf_store_def)
      from distinct_import_image_batches [OF this, of resize "imageFiles z" "bd_images dat"] w
      show ?thesis using ZipFile Some Inr
        by (auto simp: importData_def wf_store_def split: prod.splits option.splits)
    qed
  qed
qed

lemma wf_upgrade_v3: "wf_store s \<Longrightarrow> wf_store (upgrade_v3 s)"
proof -
  assume wf: "wf_store s"
  let ?f = "\<lambda>img. if isGalleryVisible img
                        \<and> (case galleryTimestamp img of None \<Rightarrow> True | Some t \<Rightarrow> t = 0)
                     then img\<lparr>galleryTimestamp := Some (createdAt img)\<rparr>
                     else img"
  have ids: "map img_id (map ?f xs) = map img_id xs" for xs
    by (induction xs) simp_all
  have imgs: "images (upgrade_v3 s) = map ?f (images s)"
    and rest: "chats (upgrade_v3 s) = chats s" "messages (upgrade_v3 s) = messages s"
    by (simp_all add: upgrade_v3_def)
  from wf show ?thesis
    unfolding wf_store_def imgs rest ids .
qed

lemma wf_handleFork: "wf_store s \<Longrightarrow> wf_store (handleFork a k c uuid t now s)"
  by (auto simp: handleFork_def Let_def wf_store_def split: option.splits sum.splits
      dest!: chats_add_Inr dest: messages_bulkAdd_Inr2)

lemma wf_deleteChatWithCleanup: "wf_store s \<Longrightarrow> wf_store (deleteChatWithCleanup cid s)"
proof -
  assume "wf_store s"
  then have "wf_store (s\<lparr>messages := messages_bulkDelete (map msg_id (filter (\<lambda>m. chatId m = cid) (messages s))) (messages s),
          chats := chats_delete cid (chats s)\<rparr>)"
    by (simp add: wf_store_def distinct_bulkDelete_msg chats_delete_def distinct_map_filter)
  then show ?thesis unfolding deleteChatWithCleanup_eq by (rule wf_deleteImagesIfOrphaned)
qed

lemma wf_forceDeleteImages: "wf_store s \<Longrightarrow> wf_store (forceDeleteImages ids s)"
proof -
  assume wf: "wf_store s"
  then have dm: "distinct (map msg_id (messages s))" by (simp add: wf_store_def)
  have "msg_id \<circ> removeImageRefs ids = msg_id" by (rule ext) simp
  then show ?thesis
    using wf unfolding wf_store_def forceDeleteImages_messages_eq [OF dm] images_forceDeleteImages
    by (simp add: distinct_bulkDelete_img)
qed

lemma reachable_wf_store: "reachable s \<Longrightarrow> wf_store s"
proof (induction rule: reachable.induct)
  case fresh
  show ?case by (simp add: wf_store_def empty_store_def)
next
  case (upgraded s0)
  then show ?case by (simp add: wf_upgrade_v3)
next
  case (other_tables s cs ps g)
  then show ?case by (simp add: wf_store_def)
next
  case (send s a key k body files now)
  then show ?case by (simp add: wf_handleSendMessage)
next
  case (generation s cid res errId errorMsg errNow now)
  then show ?case by (simp add: wf_processGeneration)
next
  case (edit s a k body kept files)
  then show ?case by (simp add: wf_handleEditMessage)
next
  case (fork s a k newChatId uuid newTitle now)
  then show ?case by (simp add: wf_handleFork)
next
  case (delete_messages s ids)
  then show ?case by (simp add: wf_deleteMessagesWithCleanup)
next
  case (delete_messages_safe s ids)
  then show ?case
    by (simp add: wf_store_def deleteMessagesSafe_images distinct_bulkDelete_img distinct_bulkDelete_msg)
next
  case (delete_chat s cid)
  then show ?case by (simp add: wf_deleteChatWithCleanup)
next
  case (delete_orphaned s ids)
  then show ?case by (simp add: wf_deleteImagesIfOrphaned)
next
  case (force_delete s ids)
  then show ?case by (simp add: wf_forceDeleteImages)
next
  case (sweep s flt)
  then show ?case using cleanupOrphanedImages_fst [of flt s]
    by (auto simp: wf_store_def distinct_bulkDelete_img)
next
  case (bulk_unbookmark s ids)
  then show ?case by (simp add: wf_handleBulkUnbookmark)
next
  case (toggle_gallery s ids)
  then show ?case by (simp add: wf_handleToggleGallery)
next
  case (toggle_bookmark s imageId)
  then show ?case by (simp add: wf_handleToggleBookmark)
next
  case (import_backup s resize atob backup)
  then show ?case by (simp add: wf_importData)
qed

text \<open>A send that stops at a file without a usable type keeps the images stored before it.\<close>

lemma handleSendMessage_stopped_leaves_orphan:
  "handleSendMessage (Some ''c1'') ''key'' ''m1'' ''hi''
       [example_file, example_file\<lparr>nf_imgId := ''y'', nf_effectiveType := []\<rparr>] 6 empty_store
     = (False, empty_store\<lparr>images := [new_image ''x'' [1] [1] ''image/png'' 5]\<rparr>)
   \<and> \<not> image_invariant (empty_store\<lparr>images := [new_image ''x'' [1] [1] ''image/png'' 5]\<rparr>)"
  by (simp add: handleSendMessage_def example_file_def empty_store_def is_blank_def images_add_def
      new_image_def image_invariant_def isImageReferenced_def)

text \<open>The sparse-index invariant holds in every reachable store.\<close>

lemma reachable_sparse_index_ok: "reachable s \<Longrightarrow> sparse_index_ok (images s)"
proof (induction rule: reachable.induct)
  case fresh
  show ?case by (simp add: empty_store_def)
next
  case (upgraded s0)
  then show ?case by (simp add: sparse_upgrade_v3)
next
  case (other_tables s cs ps g)
  then show ?case by simp
next
  case (send s a key k body files now)
  then show ?case by (simp add: sparse_handleSendMessage)
next
  case (generation s cid res errId errorMsg errNow now)
  then show ?case by (simp add: sparse_processGeneration)
next
  case (edit s a k body kept files)
  then show ?case by (simp add: sparse_handleEditMessage)
next
  case (fork s a k newChatId uuid newTitle now)
  then show ?case by simp
next
  case (delete_messages s ids)
  then show ?case by (simp add: sparse_deleteMessagesWithCleanup)
next
  case (delete_messages_safe s ids)
  then show ?case by (simp add: sparse_deleteMessagesSafe)
next
  case (delete_chat s cid)
  then show ?case by (simp add: sparse_deleteChatWithCleanup)
next
  case (delete_orphaned s ids)
  then show ?case by (simp add: sparse_deleteImagesIfOrphaned)
next
  case (force_delete s ids)
  then show ?case by (simp add: images_forceDeleteImages sparse_bulkDelete)
next
  case (sweep s flt)
  then show ?case using images_cleanupOrphanedImages [of flt s] by (auto simp: sparse_bulkDelete)
next
  case (bulk_unbookmark s ids)
  then show ?case by (simp add: sparse_handleBulkUnbookmark)
next
  case (toggle_gallery s ids)
  then show ?case by (simp add: sparse_handleToggleGallery)
next
  case (toggle_bookmark s imageId)
  then show ?case by (simp add: sparse_handleToggleBookmark)
next
  case (import_backup s resize atob backup)
  then show ?case by (simp add: sparse_importData)
qed









subsection \<open>Claims\<close>

text \<open>
  C1 (as amended). Together with the uniqueness of primary keys, the image-existence
  invariant (every row of the images table is gallery-visible or listed by a message) is
  preserved by a send and by a generation that stored their message, by fork, by the
  deletion of messages and chats with cleanup, by the orphan check, by force delete, by
  bookmarking and by the maintenance sweep; and the sweep, when no step of it fails,
  establishes the invariant from any store. Unbookmark and import are not among these
  operations: the counterexample shows a reachable store in which the unbookmark of an
  image that no message lists leaves an orphan, and an import that inserts an image that
  is neither bookmarked nor listed.
\<close>

theorem image_invariant_preserved:
  "(wf_store s \<and> image_invariant s \<and> lifecycle_op s s' \<longrightarrow> image_invariant s' \<and> wf_store s')
   \<and> image_invariant (fst (cleanupOrphanedImages no_faults s))"
proof
  show "wf_store s \<and> image_invariant s \<and> lifecycle_op s s' \<longrightarrow> image_invariant s' \<and> wf_store s'"
  proof (intro impI, elim conjE)
    assume wf: "wf_store s" and inv: "image_invariant s" and op: "lifecycle_op s s'"
    from op wf inv show "image_invariant s' \<and> wf_store s'"
    proof (cases rule: lifecycle_op.cases)
      case (sent a key k body files now)
      then show ?thesis using sent_preserves wf inv by blast
    next
      case (generated cid res errId errorMsg errNow now)
      then show ?thesis using generated_preserves wf inv by blast
    next
      case (forked a k newChatId uuid newTitle now)
      then show ?thesis using forked_preserves [OF wf inv] by simp
    next
      case (messages_deleted ids)
      then show ?thesis using messages_deleted_preserves [OF wf inv] by simp
    next
      case (messages_deleted_safe ids)
      then show ?thesis using messages_deleted_safe_preserves [OF wf inv] by simp
    next
      case (chat_deleted cid)
      then show ?thesis using chat_deleted_preserves [OF wf inv] by simp
    next
      case (orphans_deleted ids)
      then show ?thesis using orphans_deleted_preserves [OF wf inv] by simp
    next
      case (force_deleted ids)
      then show ?thesis using force_deleted_preserves [OF wf inv] by simp
    next
      case (swept flt)
      then show ?thesis using swept_preserves [OF wf inv] by simp
    next
      case (bookmarked_bulk ids)
      then show ?thesis using bookmarked_bulk_preserves [OF wf inv] by simp
    next
      case (bookmarked k r)
      then show ?thesis using bookmarked_preserves [OF wf inv] by simp
    qed
  qed
  show "image_invariant (fst (cleanupOrphanedImages no_faults s))"
    by (rule sweep_establishes)
qed

theorem image_invariant_preserved_witness:
  "wf_store empty_store \<and> image_invariant empty_store \<and> lifecycle_op empty_store example_sent
   \<and> image_invariant example_sent \<and> wf_store example_sent"
proof -
  have wf: "wf_store empty_store" by (simp add: wf_store_def empty_store_def)
  have inv: "image_invariant empty_store" by (simp add: image_invariant_def empty_store_def)
  have op: "lifecycle_op empty_store example_sent"
    by (rule lifecycle_op.sent [OF example_send_result [folded example_sent_eq]])
  from image_invariant_preserved [of empty_store example_sent] wf inv op show ?thesis by simp
qed

theorem image_invariant_counterexample:
  "reachable example_unbookmarked \<and> image_invariant example_deleted
   \<and> \<not> image_invariant example_unbookmarked
   \<and> \<not> image_invariant (snd (importData (\<lambda>b. b) (\<lambda>x. None) (ZipFile example_orphan_archive) empty_store))"
proof -
  have "reachable example_sent"
    unfolding example_sent_def by (rule reachable.send [OF reachable.fresh])
  then have "reachable example_bookmarked"
    unfolding example_bookmarked_def by (rule reachable.toggle_gallery)
  then have "reachable example_deleted"
    unfolding example_deleted_def by (rule reachable.delete_messages)
  then have r: "reachable example_unbookmarked"
    unfolding example_unbookmarked_def by (rule reachable.bulk_unbookmark)
  have d: "image_invariant example_deleted"
    by (simp add: example_deleted_eq example_bookmarked_eq example_sent_eq image_invariant_def bookmark_def)
  have u: "\<not> image_invariant example_unbookmarked"
    by (simp add: example_unbookmarked_eq example_deleted_eq example_bookmarked_eq example_sent_eq
        image_invariant_def new_image_def isImageReferenced_def)
  have i: "\<not> image_invariant (snd (importData (\<lambda>b. b) (\<lambda>x. None) (ZipFile example_orphan_archive) empty_store))"
    by (simp add: image_invariant_def example_orphan_import isImageReferenced_def)
  from r d u i show ?thesis by simp
qed

text \<open>
  C3. \<open>forceDeleteImages\<close> removes every row of the images table whose id is listed,
  whatever its gallery flag, and leaves the other rows as they are; every message is
  rewritten so that exactly the listed ids are gone from its \<open>imageIds\<close> and the remaining
  ids keep their order; afterwards no message of any chat lists a deleted id.
\<close>

theorem forceDeleteImages_removes_everywhere:
  assumes "distinct (map msg_id (messages s))"
  shows "images (forceDeleteImages ids s) = filter (\<lambda>r. img_id r \<notin> set ids) (images s)
       \<and> messages (forceDeleteImages ids s) = map (removeImageRefs ids) (messages s)
       \<and> (\<forall>r\<in>set (images (forceDeleteImages ids s)). img_id r \<notin> set ids)
       \<and> (\<forall>m\<in>set (messages (forceDeleteImages ids s)). set (msg_imageIds m) \<inter> set ids = {})"
proof -
  have imgs: "images (forceDeleteImages ids s) = filter (\<lambda>r. img_id r \<notin> set ids) (images s)"
    by (cases "ids = []") (simp_all add: forceDeleteImages_def Let_def images_bulkDelete_def)
  have msgs: "messages (forceDeleteImages ids s) = map (removeImageRefs ids) (messages s)"
    using assms by (rule forceDeleteImages_messages_eq)
  have "set (msg_imageIds (removeImageRefs ids m)) \<inter> set ids = {}" for m
    by (auto simp: removeImageRefs_def msg_imageIds_def split: option.splits)
  with imgs msgs show ?thesis by auto
qed

theorem forceDeleteImages_removes_everywhere_witness:
  "distinct (map msg_id [mk_message ''m1'' ''A'' [''y'', ''x'', ''z''], mk_message ''m2'' ''B'' [''x'']])
   \<and> images (forceDeleteImages [''x'']
        (mk_store [mk_message ''m1'' ''A'' [''y'', ''x'', ''z''], mk_message ''m2'' ''B'' [''x'']]
                  [mk_image ''x'' 5 True, mk_image ''y'' 6 False])) = [mk_image ''y'' 6 False]
   \<and> messages (forceDeleteImages [''x'']
        (mk_store [mk_message ''m1'' ''A'' [''y'', ''x'', ''z''], mk_message ''m2'' ''B'' [''x'']]
                  [mk_image ''x'' 5 True, mk_image ''y'' 6 False]))
       = [mk_message ''m1'' ''A'' [''y'', ''z''], mk_message ''m2'' ''B'' []]"
  using forceDeleteImages_removes_everywhere
    [of "mk_store [mk_message ''m1'' ''A'' [''y'', ''x'', ''z''], mk_message ''m2'' ''B'' [''x'']]
                  [mk_image ''x'' 5 True, mk_image ''y'' 6 False]" "[''x'']"]
  by (simp add: mk_store_def mk_message_def mk_image_def removeImageRefs_def)

text \<open>
  C2. Let \<open>S\<close> be a list of message ids and \<open>img\<close> a row of the images table that is not
  gallery-visible and is listed by a message whose id is in \<open>S\<close>. After
  \<open>deleteMessagesWithCleanup S\<close>, and likewise after \<open>deleteMessagesSafe S\<close>, the row is
  still in the images table if and only if some message whose id is not in \<open>S\<close> lists it.
\<close>

theorem delete_messages_reference_survival:
  assumes "wf_store s" and "img \<in> set (images s)" and "\<not> isGalleryVisible img"
    and "m \<in> set (messages s)" and "msg_id m \<in> set S" and "img_id img \<in> set (msg_imageIds m)"
  shows "(img \<in> set (images (deleteMessagesWithCleanup S s)) \<longleftrightarrow>
            (\<exists>m'\<in>set (messages s). msg_id m' \<notin> set S \<and> img_id img \<in> set (msg_imageIds m')))
       \<and> (img \<in> set (images (deleteMessagesSafe S s)) \<longleftrightarrow>
            (\<exists>m'\<in>set (messages s). msg_id m' \<notin> set S \<and> img_id img \<in> set (msg_imageIds m')))"
proof -
  from assms(1) have d: "distinct (map msg_id (messages s))" "distinct (map img_id (images s))"
    by (simp_all add: wf_store_def)
  show ?thesis
    using deleteMessagesWithCleanup_mem [OF assms(2-6)]
      deleteMessagesSafe_mem [OF d assms(2-6)]
    by blast
qed

theorem delete_messages_reference_survival_witness:
  "mk_image ''x'' 5 False \<in> set (images (deleteMessagesWithCleanup [''m1'']
      (mk_store [mk_message ''m1'' ''A'' [''x''], mk_message ''m2'' ''B'' [''x'']] [mk_image ''x'' 5 False])))
   \<and> mk_image ''x'' 5 False \<in> set (images (deleteMessagesSafe [''m1'']
      (mk_store [mk_message ''m1'' ''A'' [''x''], mk_message ''m2'' ''B'' [''x'']] [mk_image ''x'' 5 False])))
   \<and> mk_image ''x'' 5 False \<notin> set (images (deleteMessagesWithCleanup [''m1'', ''m2'']
      (mk_store [mk_message ''m1'' ''A'' [''x''], mk_message ''m2'' ''B'' [''x'']] [mk_image ''x'' 5 False])))
   \<and> mk_image ''x'' 5 False \<notin> set (images (deleteMessagesSafe [''m1'', ''m2'']
      (mk_store [mk_message ''m1'' ''A'' [''x''], mk_message ''m2'' ''B'' [''x'']] [mk_image ''x'' 5 False])))"
proof -
  let ?m1 = "mk_message ''m1'' ''A'' [''x'']"
  let ?s = "mk_store [?m1, mk_message ''m2'' ''B'' [''x'']] [mk_image ''x'' 5 False]"
  have wf: "wf_store ?s"
    by (simp add: wf_store_def mk_store_def mk_message_def mk_image_def)
  have img: "mk_image ''x'' 5 False \<in> set (images ?s)" by (simp add: mk_store_def)
  have vis: "\<not> isGalleryVisible (mk_image ''x'' 5 False)" by (simp add: mk_image_def)
  have m: "?m1 \<in> set (messages ?s)" by (simp add: mk_store_def)
  have ref: "img_id (mk_image ''x'' 5 False) \<in> set (msg_imageIds ?m1)"
    by (simp add: mk_image_def mk_message_def msg_imageIds_def)
  have one: "msg_id ?m1 \<in> set [''m1'']" and both: "msg_id ?m1 \<in> set [''m1'', ''m2'']"
    by (simp_all add: mk_message_def)
  from delete_messages_reference_survival [OF wf img vis m one ref]
    delete_messages_reference_survival [OF wf img vis m both ref]
  show ?thesis
    by (simp add: mk_store_def mk_message_def mk_image_def msg_imageIds_def)
qed




text \<open>
  C8. \<open>cleanupOrphanedImages\<close> returns a store and a count under every fault schedule:
  its result type has no error component. The count is the number of rows that left the
  images table, the remaining rows are rows of the old table, every row that left was
  not gallery-visible and was listed by no message, and the other tables are untouched.
  When a step of the transaction fails, the store is unchanged and the count is 0.
\<close>

theorem cleanupOrphanedImages_contained:
  assumes "distinct (map img_id (images s))" and "cleanupOrphanedImages flt s = (s', n)"
  shows "n = length (images s) - length (images s')
       \<and> (\<forall>r\<in>set (images s'). r \<in> set (images s))
       \<and> (\<forall>r\<in>set (images s). r \<notin> set (images s') \<longrightarrow>
             \<not> isGalleryVisible r \<and> \<not> isImageReferenced (messages s) (img_id r))
       \<and> chats s' = chats s \<and> messages s' = messages s \<and> prompts s' = prompts s
       \<and> ((\<exists>e. cleanupOrphanedImages_txn flt s = Inl e) \<longrightarrow> s' = s \<and> n = 0)"
proof (cases "cleanupOrphanedImages_txn flt s")
  case (Inl e)
  with assms(2) have "s' = s" "n = 0" by (simp_all add: cleanupOrphanedImages_def)
  then show ?thesis by simp
next
  case (Inr r)
  with assms(2) have "cleanupOrphanedImages_txn flt s = Inr (s', n)"
    by (simp add: cleanupOrphanedImages_def)
  note c = cleanupOrphanedImages_txn_Inr [OF this]
  let ?td = "filter (\<lambda>i. \<not> isImageReferenced (messages s) i)
                (map img_id (filter (\<lambda>img. \<not> isGalleryVisible img) (images s)))"
  from c have imgs: "images s' = images_bulkDelete ?td (images s)"
    and rest: "chats s' = chats s" "messages s' = messages s" "prompts s' = prompts s"
    and n_td: "n = length ?td"
    by simp_all
  have len: "length (images s') = length (images s) - length ?td"
    unfolding imgs by (rule length_bulkDelete_orphans [OF assms(1)])
  have "length ?td \<le> length (images s)"
  proof -
    have "length ?td \<le> length (filter (\<lambda>img. \<not> isGalleryVisible img) (images s))"
      using length_filter_le [of _ "map img_id (filter (\<lambda>img. \<not> isGalleryVisible img) (images s))"] by simp
    also have "\<dots> \<le> length (images s)" by (rule length_filter_le)
    finally show ?thesis .
  qed
  with len n_td have n: "n = length (images s) - length (images s')" by simp
  have sub: "\<forall>r\<in>set (images s'). r \<in> set (images s)"
    unfolding imgs by (simp add: images_bulkDelete_def)
  have del: "\<forall>r\<in>set (images s). r \<notin> set (images s') \<longrightarrow>
             \<not> isGalleryVisible r \<and> \<not> isImageReferenced (messages s) (img_id r)"
  proof (intro ballI impI)
    fix r assume r: "r \<in> set (images s)" and gone: "r \<notin> set (images s')"
    from gone r have "img_id r \<in> set ?td" unfolding imgs images_bulkDelete_def by simp
    then obtain c where c: "c \<in> set (images s)" "\<not> isGalleryVisible c" "img_id c = img_id r"
      and unref: "\<not> isImageReferenced (messages s) (img_id r)" by auto
    from assms(1) c(1,3) r have "c = r" by (auto simp: distinct_map inj_on_def)
    with c(2) unref show "\<not> isGalleryVisible r \<and> \<not> isImageReferenced (messages s) (img_id r)"
      by simp
  qed
  have nofail: "\<not> (\<exists>e. cleanupOrphanedImages_txn flt s = Inl e)" using Inr by simp
  from n sub del rest nofail show ?thesis by blast
qed

theorem cleanupOrphanedImages_contained_witness:
  "distinct (map img_id [mk_image ''g'' 1 True, mk_image ''o'' 2 False, mk_image ''r'' 3 False])
   \<and> cleanupOrphanedImages no_faults
        (mk_store [mk_message ''m1'' ''A'' [''r'']]
           [mk_image ''g'' 1 True, mk_image ''o'' 2 False, mk_image ''r'' 3 False])
       = (mk_store [mk_message ''m1'' ''A'' [''r'']] [mk_image ''g'' 1 True, mk_image ''r'' 3 False], 1)
   \<and> cleanupOrphanedImages (\<lambda>k. k = 2)
        (mk_store [mk_message ''m1'' ''A'' [''r'']]
           [mk_image ''g'' 1 True, mk_image ''o'' 2 False, mk_image ''r'' 3 False])
       = (mk_store [mk_message ''m1'' ''A'' [''r'']]
           [mk_image ''g'' 1 True, mk_image ''o'' 2 False, mk_image ''r'' 3 False], 0)
   \<and> \<not> isImageReferenced [mk_message ''m1'' ''A'' [''r'']] ''o''"
proof -
  let ?s = "mk_store [mk_message ''m1'' ''A'' [''r'']]
              [mk_image ''g'' 1 True, mk_image ''o'' 2 False, mk_image ''r'' 3 False]"
  let ?s' = "mk_store [mk_message ''m1'' ''A'' [''r'']] [mk_image ''g'' 1 True, mk_image ''r'' 3 False]"
  have d: "distinct (map img_id (images ?s))"
    by (simp add: mk_store_def mk_image_def)
  have ok: "cleanupOrphanedImages no_faults ?s = (?s', 1)"
    by (simp add: cleanupOrphanedImages_def cleanupOrphanedImages_txn_def no_faults_def
        mk_store_def mk_image_def mk_message_def isImageReferenced_def msg_imageIds_def
        images_bulkDelete_def Let_def)
  have bad: "cleanupOrphanedImages (\<lambda>k. k = 2) ?s = (?s, 0)"
    by (simp add: cleanupOrphanedImages_def cleanupOrphanedImages_txn_def
        mk_store_def mk_image_def mk_message_def isImageReferenced_def msg_imageIds_def
        images_bulkDelete_def Let_def)
  from cleanupOrphanedImages_contained [OF d ok] cleanupOrphanedImages_contained [OF d bad] ok bad
  show ?thesis
    by (simp add: mk_store_def mk_image_def mk_message_def)
qed


text \<open>
  C5. In every reachable store, every row of the images table is gallery-visible if and
  only if its gallery timestamp is present. The induction (lemma
  \<open>reachable_sparse_index_ok\<close>) goes through every operation
  that sets or clears one of the two fields: bookmark and unbookmark in the three gallery
  handlers, the creation of images by send, edit and generation, the archive import and
  the legacy import, and the upgrade to schema version 3.
\<close>

theorem sparse_index_invariant:
  "reachable s \<Longrightarrow> sparse_index_ok (images s)"
  by (rule reachable_sparse_index_ok)

theorem sparse_index_invariant_witness:
  "reachable example_imported \<and> sparse_index_ok (images example_imported)"
proof -
  have "reachable (snd (importData (\<lambda>b. b) (\<lambda>x. None) (ZipFile example_archive) empty_store))"
    by (rule reachable.import_backup [OF reachable.fresh])
  then have r: "reachable example_imported" by (simp add: example_first_import)
  from sparse_index_invariant [OF r] r show ?thesis by simp
qed

text \<open>
  C6. When the import of a backup file has succeeded, importing the same file again
  succeeds with the same configuration result and leaves the chats, messages and images
  tables exactly as they were after the first import, while the prompts table grows by
  the number of prompt entries of the file. This holds for the archive format and for
  the legacy single-document format.
\<close>

theorem import_twice:
  assumes "importData resize atob file s = (Inr c, s1)"
  shows "\<exists>s2. importData resize atob file s1 = (Inr c, s2)
           \<and> chats s2 = chats s1 \<and> messages s2 = messages s1 \<and> images s2 = images s1
           \<and> length (prompts s2) = length (prompts s1) + length (file_prompts file)"
proof (cases "file")
  case (JsonFile d)
  with assms have 1: "importLegacyJson atob d s = (Inr c, s1)" by (simp add: importData_def)
  from importLegacyJson_idle [OF importLegacyJson_Inr(1-3) [OF 1], of atob] importLegacyJson_Inr(4) [OF 1]
  show ?thesis unfolding JsonFile by (simp add: importData_def file_prompts_def)
next
  case (ZipFile z)
  with assms show ?thesis using import_zip_twice by simp
qed

theorem import_twice_witness:
  "importData (\<lambda>b. b) (\<lambda>x. None) (ZipFile example_archive) empty_store = (Inr None, example_imported)
   \<and> (\<exists>s2. importData (\<lambda>b. b) (\<lambda>x. None) (ZipFile example_archive) example_imported = (Inr None, s2)
         \<and> chats s2 = chats example_imported \<and> messages s2 = messages example_imported
         \<and> images s2 = images example_imported \<and> length (prompts s2) = 2)"
proof -
  have n: "length (prompts example_imported) + length (file_prompts (ZipFile example_archive)) = 2"
    by (simp add: file_prompts_def example_archive_def example_manifest_def example_imported_def)
  from import_twice [OF example_first_import] show ?thesis
    unfolding n using example_first_import by simp
qed

text \<open>
  C10. In every image table that satisfies the sparse-index invariant (a gallery timestamp
  is present, with a positive value, exactly when the row is gallery-visible), the count
  over the sparse index used by the gallery view and the lightbox equals the count of
  gallery-visible rows used by the capacity check of the bulk handler.
\<close>

theorem gallery_counts_agree:
  "sparse_index_pos tbl \<Longrightarrow> galleryCountIndex tbl = galleryCountVisible tbl"
  by (rule galleryCountIndex_eq_visible)

theorem gallery_counts_agree_witness:
  "sparse_index_pos
     [\<lparr>img_id = ''a'', blob = [], thumbnail = None, mimeType = ''image/png'', createdAt = 7,
       isGalleryVisible = True, galleryTimestamp = Some 7\<rparr>,
      \<lparr>img_id = ''b'', blob = [], thumbnail = None, mimeType = ''image/png'', createdAt = 9,
       isGalleryVisible = False, galleryTimestamp = None\<rparr>]
   \<and> galleryCountIndex
     [\<lparr>img_id = ''a'', blob = [], thumbnail = None, mimeType = ''image/png'', createdAt = 7,
       isGalleryVisible = True, galleryTimestamp = Some 7\<rparr>,
      \<lparr>img_id = ''b'', blob = [], thumbnail = None, mimeType = ''image/png'', createdAt = 9,
       isGalleryVisible = False, galleryTimestamp = None\<rparr>] = 1
   \<and> galleryCountVisible
     [\<lparr>img_id = ''a'', blob = [], thumbnail = None, mimeType = ''image/png'', createdAt = 7,
       isGalleryVisible = True, galleryTimestamp = Some 7\<rparr>,
      \<lparr>img_id = ''b'', blob = [], thumbnail = None, mimeType = ''image/png'', createdAt = 9,
       isGalleryVisible = False, galleryTimestamp = None\<rparr>] = 1"
proof -
  let ?tbl = "[\<lparr>img_id = ''a'', blob = [], thumbnail = None, mimeType = ''image/png'', createdAt = 7,
       isGalleryVisible = True, galleryTimestamp = Some 7\<rparr>,
      \<lparr>img_id = ''b'', blob = [], thumbnail = None, mimeType = ''image/png'', createdAt = 9,
       isGalleryVisible = False, galleryTimestamp = None\<rparr>]"
  have inv: "sparse_index_pos ?tbl"
    by (simp add: sparse_index_pos_def)
  have vis: "galleryCountVisible ?tbl = 1"
    by (simp add: galleryCountVisible_def)
  from gallery_counts_agree [OF inv] vis inv show ?thesis
    by simp
qed

text \<open>
  C9. Two application configurations that differ only in the stored API key export to the
  same archive, manifest included, and the configuration copy in the manifest carries
  the empty string as its credential.
\<close>

theorem export_redacts_api_key:
  "exportData (cfg\<lparr>apiKey := k1\<rparr>) now s = exportData (cfg\<lparr>apiKey := k2\<rparr>) now s
   \<and> (\<exists>d c. dataFile (exportData cfg now s) = Some d \<and> config d = Some c \<and> apiKey c = [])"
  by (simp add: exportData_def Let_def)

end
